theory Spec2Isabelle
  imports Main
begin

section \<open>Python values used by the program\<close>

text \<open>
  The program is one Python module, \<^verbatim>\<open>main.py\<close>, with the functions \<^verbatim>\<open>resize\<close>,
  \<^verbatim>\<open>natural_sort_key\<close>, \<^verbatim>\<open>images_to_video\<close> and \<^verbatim>\<open>main\<close>.

  A Python \<^verbatim>\<open>str\<close> is a sequence of code points. It is modelled by \<^typ>\<open>string\<close>, whose
  characters are the code points below 256 (ASCII and Latin-1): the model speaks of the
  names and paths made of these characters, and on them the library predicates used by
  the program (\<^verbatim>\<open>isdigit\<close>, \<^verbatim>\<open>lower\<close>, \<^verbatim>\<open>strip\<close>, \<^verbatim>\<open>int\<close>) are written out in full. Python
  has digit characters beyond them, some of which \<^verbatim>\<open>int\<close> converts, as U+0663; a name
  that holds a character from 256 on is outside the model.

  Every \<^verbatim>\<open>raise\<close> of the module, and every exception of a library call that the
  properties below depend on, is a value of \<open>pyerror\<close>. The three \<^verbatim>\<open>ValueError\<close>s
  raised by \<^verbatim>\<open>images_to_video\<close> differ in their message only; \<open>vmsg\<close> names the
  raise site.
\<close>

datatype vmsg =
    NoInputFiles        \<comment> \<open>line 60: no supported image file found under the path\<close>
  | NoDecodableImages   \<comment> \<open>line 82: no image could be read\<close>
  | SinkOpenFailed      \<comment> \<open>line 95: the video file could not be created\<close>
  | InvalidLiteral      \<comment> \<open>\<^verbatim>\<open>int(text)\<close>: invalid literal for int() with base 10\<close>
  | TooManyDigits       \<comment> \<open>\<^verbatim>\<open>int(text)\<close>: exceeds the limit (4300 digits)\<close>
  | UnpackCount         \<comment> \<open>\<^verbatim>\<open>h, w = t\<close> with \<^verbatim>\<open>len(t) != 2\<close>\<close>

datatype pyerror =
    ValueError vmsg
  | IndexError
  | TypeError
  | Cv2Error            \<comment> \<open>\<^verbatim>\<open>cv2.error\<close>, raised inside an OpenCV call\<close>

subsection \<open>Characters and strings\<close>

definition code :: "char \<Rightarrow> nat" where
  "code c = of_char c"

definition is_ascii_digit :: "char \<Rightarrow> bool" where
  \<comment> \<open>the character class \<^verbatim>\<open>[0-9]\<close> of the regular expression\<close>
  "is_ascii_digit c \<longleftrightarrow> 48 \<le> code c \<and> code c \<le> 57"

definition is_superscript :: "char \<Rightarrow> bool" where
  \<comment> \<open>the superscript digits U+00B2, U+00B3 and U+00B9\<close>
  "is_superscript c \<longleftrightarrow> code c = 178 \<or> code c = 179 \<or> code c = 185"

definition chr_isdigit :: "char \<Rightarrow> bool" where
  \<comment> \<open>\<^verbatim>\<open>str.isdigit\<close> on one character below 256: the ASCII digits and the superscript
      digits, the only other digit characters there\<close>
  "chr_isdigit c \<longleftrightarrow> is_ascii_digit c \<or> is_superscript c"

definition py_isdigit :: "string \<Rightarrow> bool" where
  \<comment> \<open>\<^verbatim>\<open>s.isdigit()\<close>: at least one character and all of them digits\<close>
  "py_isdigit s \<longleftrightarrow> s \<noteq> [] \<and> list_all chr_isdigit s"

definition chr_lower :: "char \<Rightarrow> char" where
  \<comment> \<open>A-Z and the Latin-1 capitals U+00C0..U+00DE (without the multiplication sign
      U+00D7) move up by 32; every other character below 256 stays\<close>
  "chr_lower c =
     (let n = code c
      in if (65 \<le> n \<and> n \<le> 90) \<or> (192 \<le> n \<and> n \<le> 222 \<and> n \<noteq> 215)
         then char_of (n + 32) else c)"

definition py_lower :: "string \<Rightarrow> string" where
  "py_lower s = map chr_lower s"

definition chr_isspace :: "char \<Rightarrow> bool" where
  \<comment> \<open>the whitespace removed by \<^verbatim>\<open>str.strip()\<close>, below 256\<close>
  "chr_isspace c \<longleftrightarrow>
     (9 \<le> code c \<and> code c \<le> 13) \<or> (28 \<le> code c \<and> code c \<le> 32)
     \<or> code c = 133 \<or> code c = 160"

definition py_strip :: "string \<Rightarrow> string" where
  "py_strip s = rev (dropWhile chr_isspace (rev (dropWhile chr_isspace s)))"

definition py_rstrip :: "char \<Rightarrow> string \<Rightarrow> string" where
  \<comment> \<open>\<^verbatim>\<open>s.rstrip(c)\<close> for a one-character argument\<close>
  "py_rstrip c s = rev (dropWhile (\<lambda>x. x = c) (rev s))"

definition py_endswith :: "string \<Rightarrow> string \<Rightarrow> bool" where
  "py_endswith s suf \<longleftrightarrow>
     length suf \<le> length s \<and> drop (length s - length suf) s = suf"

definition decimal :: "string \<Rightarrow> int" where
  \<comment> \<open>the value of a run of ASCII digits read in base 10\<close>
  "decimal s = foldl (\<lambda>a c. 10 * a + int (code c - 48)) 0 s"

definition py_int :: "string \<Rightarrow> pyerror + int" where
  \<comment> \<open>\<^verbatim>\<open>int(text)\<close> on a text of characters below 256 that are all \<^verbatim>\<open>isdigit\<close>, the one
      way the program calls it. CPython reads the leading ASCII digits and refuses more
      than 4300 of them (the default of \<^verbatim>\<open>sys.set_int_max_str_digits\<close>); otherwise the
      result is the decimal value of ASCII digits, and a superscript digit, which is no
      decimal digit, makes it raise\<close>
  "py_int s =
     (if 4300 < length (takeWhile is_ascii_digit s) then Inl (ValueError TooManyDigits)
      else if s \<noteq> [] \<and> list_all is_ascii_digit s then Inr (decimal s)
      else Inl (ValueError InvalidLiteral))"

fun str_lt :: "string \<Rightarrow> string \<Rightarrow> bool" where
  \<comment> \<open>\<^verbatim>\<open>a < b\<close> on strings: lexicographic by code point\<close>
  "str_lt [] [] = False"
| "str_lt [] (y # ys) = True"
| "str_lt (x # xs) [] = False"
| "str_lt (x # xs) (y # ys) = (if x = y then str_lt xs ys else code x < code y)"

section \<open>The output path of \<^verbatim>\<open>main\<close> (lines 129 to 132)\<close>

definition backslash :: char where
  "backslash = CHR 0x5C"

definition output_path_of :: "string \<Rightarrow> string" where
  \<comment> \<open>\<^verbatim>\<open>input(...).strip() or 'demo.mp4'\<close>\<close>
  "output_path_of line = (let s = py_strip line in if s = [] then ''demo.mp4'' else s)"

definition fix_extension :: "string \<Rightarrow> string" where
  \<comment> \<open>lines 131 and 132\<close>
  "fix_extension output_path =
     (if \<not> py_endswith (py_lower output_path) ''.mp4''
      then (if backslash \<in> set output_path
            then py_rstrip backslash output_path @ backslash # ''output.mp4''
            else output_path @ ''.mp4'')
      else output_path)"

definition main_output_path :: "string \<Rightarrow> string" where
  "main_output_path line = fix_extension (output_path_of line)"

section \<open>\<^verbatim>\<open>natural_sort_key\<close> (lines 37 to 41) and the sort of line 63\<close>

text \<open>
  \<^verbatim>\<open>re.split('([0-9]+)', s)\<close> cuts \<open>s\<close> at every maximal run of ASCII digits and, the
  pattern being a capturing group, keeps the runs: the result lists the text before the
  first run, the first run, the text between the first and the second run, and so on, and
  ends with the text after the last run. A text is empty where \<open>s\<close> starts or ends with a
  digit.
\<close>

function re_split :: "string \<Rightarrow> string list" where
  "re_split s =
     (let text = takeWhile (\<lambda>c. \<not> is_ascii_digit c) s;
          rest = dropWhile (\<lambda>c. \<not> is_ascii_digit c) s
      in if rest = [] then [text]
         else text # takeWhile is_ascii_digit rest # re_split (dropWhile is_ascii_digit rest))"
  by pat_completeness auto
termination
proof (relation "measure length")
  show "wf (measure length)"
    by simp
next
  fix s :: string and rest
  assume rest: "rest = dropWhile (\<lambda>c. \<not> is_ascii_digit c) s" and ne: "rest \<noteq> []"
  from ne obtain c cs where cs: "rest = c # cs"
    by (cases rest) auto
  have "dropWhile (\<lambda>c. \<not> is_ascii_digit c) s = c # cs"
    using rest cs by simp
  then have "is_ascii_digit c"
    by (simp add: dropWhile_eq_Cons_conv)
  then have "length (dropWhile is_ascii_digit rest) \<le> length cs"
    using cs by (simp add: length_dropWhile_le)
  also have "length cs < length rest"
    using cs by simp
  also have "length rest \<le> length s"
    using rest by (simp add: length_dropWhile_le)
  finally show "(dropWhile is_ascii_digit rest, s) \<in> measure length"
    by simp
qed

declare re_split.simps [simp del]

datatype token = TStr string | TInt int

definition convert :: "string \<Rightarrow> pyerror + token" where
  \<comment> \<open>\<^verbatim>\<open>int(text) if text.isdigit() else text.lower()\<close>\<close>
  "convert text =
     (if py_isdigit text
      then (case py_int text of Inl e \<Rightarrow> Inl e | Inr n \<Rightarrow> Inr (TInt n))
      else Inr (TStr (py_lower text)))"

fun collect :: "('a \<Rightarrow> pyerror + 'b) \<Rightarrow> 'a list \<Rightarrow> pyerror + 'b list" where
  \<comment> \<open>a list comprehension: left to right, the first exception ends it\<close>
  "collect f [] = Inr []"
| "collect f (x # xs) =
     (case f x of
        Inl e \<Rightarrow> Inl e
      | Inr y \<Rightarrow> (case collect f xs of Inl e \<Rightarrow> Inl e | Inr ys \<Rightarrow> Inr (y # ys)))"

definition natural_sort_key :: "string \<Rightarrow> pyerror + token list" where
  "natural_sort_key s = collect convert (re_split s)"

text \<open>
  Python compares two lists at the first index where the elements are not equal (an
  \<^verbatim>\<open>int\<close> and a \<^verbatim>\<open>str\<close> are never equal) and orders them by \<^verbatim>\<open><\<close> on that pair, which
  raises \<^verbatim>\<open>TypeError\<close> between an \<^verbatim>\<open>int\<close> and a \<^verbatim>\<open>str\<close>; without such an index the
  shorter list is the smaller.
\<close>

fun token_lt :: "token \<Rightarrow> token \<Rightarrow> pyerror + bool" where
  "token_lt (TStr a) (TStr b) = Inr (str_lt a b)"
| "token_lt (TInt m) (TInt n) = Inr (m < n)"
| "token_lt (TStr a) (TInt n) = Inl TypeError"
| "token_lt (TInt m) (TStr b) = Inl TypeError"

fun key_lt :: "token list \<Rightarrow> token list \<Rightarrow> pyerror + bool" where
  "key_lt [] [] = Inr False"
| "key_lt [] (y # ys) = Inr True"
| "key_lt (x # xs) [] = Inr False"
| "key_lt (x # xs) (y # ys) = (if x = y then key_lt xs ys else token_lt x y)"

text \<open>
  \<^verbatim>\<open>list.sort(key=f)\<close> first computes the key of every element, in order (an exception
  of \<open>f\<close> ends the sort), then sorts by \<^verbatim>\<open><\<close> on the keys, stably. The sort is modelled
  by a stable insertion sort that, like Python's, only ever asks whether one key is less
  than another; on keys that \<^verbatim>\<open><\<close> orders totally every stable sort returns the same
  list.
\<close>

fun insort_lt :: "token list \<times> 'a \<Rightarrow> (token list \<times> 'a) list \<Rightarrow> pyerror + (token list \<times> 'a) list" where
  "insort_lt x [] = Inr [x]"
| "insort_lt x (y # ys) =
     (case key_lt (fst y) (fst x) of
        Inl e \<Rightarrow> Inl e
      | Inr True \<Rightarrow> (case insort_lt x ys of Inl e \<Rightarrow> Inl e | Inr zs \<Rightarrow> Inr (y # zs))
      | Inr False \<Rightarrow> Inr (x # y # ys))"

fun sort_lt :: "(token list \<times> 'a) list \<Rightarrow> pyerror + (token list \<times> 'a) list" where
  "sort_lt [] = Inr []"
| "sort_lt (x # xs) = (case sort_lt xs of Inl e \<Rightarrow> Inl e | Inr ys \<Rightarrow> insort_lt x ys)"

definition sort_by_key :: "('a \<Rightarrow> pyerror + token list) \<Rightarrow> 'a list \<Rightarrow> pyerror + 'a list" where
  "sort_by_key f xs =
     (case collect (\<lambda>x. case f x of Inl e \<Rightarrow> Inl e | Inr k \<Rightarrow> Inr (k, x)) xs of
        Inl e \<Rightarrow> Inl e
      | Inr kxs \<Rightarrow> (case sort_lt kxs of Inl e \<Rightarrow> Inl e | Inr ys \<Rightarrow> Inr (map snd ys)))"

section \<open>Images and \<^verbatim>\<open>resize\<close> (lines 5 to 34)\<close>

text \<open>
  An image is a numpy array: a shape, which is \<open>[height, width]\<close> for a grey image and
  \<open>[height, width, channels]\<close> for a colour image, and the pixel samples in row-major
  order. Python variables and lists hold references to arrays, and the specification
  speaks of copies and aliases, so the arrays live in a heap; a reference is an index into it, and
  a new array is put at the end. A list of images is a list of references into the heap,
  all of them valid, since Python has no dangling reference.
\<close>

record ndarray =
  shape :: "nat list"
  pixels :: "nat list"

type_synonym ref = nat

type_synonym heap = "ndarray list"

definition alloc :: "heap \<Rightarrow> ndarray \<Rightarrow> heap \<times> ref" where
  "alloc hp a = (hp @ [a], length hp)"

definition refs_ok :: "heap \<Rightarrow> ref list \<Rightarrow> bool" where
  "refs_ok hp rs \<longleftrightarrow> list_all (\<lambda>r. r < length hp) rs"

definition shape2 :: "ndarray \<Rightarrow> nat list" where
  \<comment> \<open>\<^verbatim>\<open>img.shape[:2]\<close>\<close>
  "shape2 a = take 2 (shape a)"

definition unpack2 :: "nat list \<Rightarrow> pyerror + nat \<times> nat" where
  \<comment> \<open>\<^verbatim>\<open>height, width = t\<close>: the tuple must have exactly two elements\<close>
  "unpack2 t = (case t of [h, w] \<Rightarrow> Inr (h, w) | _ \<Rightarrow> Inl (ValueError UnpackCount))"

text \<open>
  \<^verbatim>\<open>cv2.resize(img, (width, height), interpolation=cv2.INTER_LINEAR)\<close> belongs to OpenCV,
  not to the program: it is a parameter of the model, a function from the image and the
  requested \<open>(width, height)\<close> to a new image, or to \<open>None\<close> where OpenCV raises
  \<^verbatim>\<open>cv2.error\<close>. \<open>resampler_ok\<close> is what the program relies on: an image that OpenCV
  returns has the requested height and width.
\<close>

type_synonym resampler = "ndarray \<Rightarrow> nat \<times> nat \<Rightarrow> ndarray option"

definition resampler_ok :: "resampler \<Rightarrow> bool" where
  "resampler_ok cv2_resize \<longleftrightarrow>
     (\<forall>img w h r. cv2_resize img (w, h) = Some r \<longrightarrow> shape2 r = [h, w])"

fun scan_sizes :: "heap \<Rightarrow> string \<Rightarrow> nat \<times> nat \<Rightarrow> ref list \<Rightarrow> pyerror + nat \<times> nat" where
  \<comment> \<open>the loop of lines 16 to 23 over \<^verbatim>\<open>img_array[1:]\<close>; the pair is \<^verbatim>\<open>(_height, _width)\<close>\<close>
  "scan_sizes hp align_mode (H, W) [] = Inr (H, W)"
| "scan_sizes hp align_mode (H, W) (img # imgs) =
     (case unpack2 (shape2 (hp ! img)) of
        Inl e \<Rightarrow> Inl e
      | Inr (h, w) \<Rightarrow>
          if align_mode = ''smallest''
          then scan_sizes hp align_mode (min H h, min W w) imgs
          else scan_sizes hp align_mode (max H h, max W w) imgs)"

fun resize_each :: "resampler \<Rightarrow> nat \<times> nat \<Rightarrow> heap \<Rightarrow> ref list \<Rightarrow> pyerror + heap \<times> ref list" where
  \<comment> \<open>the loop of lines 27 to 32: a resampled image, or a copy, both new arrays\<close>
  "resize_each cv2_resize (H, W) hp [] = Inr (hp, [])"
| "resize_each cv2_resize (H, W) hp (img # imgs) =
     (case (if shape2 (hp ! img) \<noteq> [H, W] then cv2_resize (hp ! img) (W, H)
            else Some (hp ! img)) of
        None \<Rightarrow> Inl Cv2Error
      | Some resized \<Rightarrow>
          (case alloc hp resized of
             (hp', r) \<Rightarrow>
               (case resize_each cv2_resize (H, W) hp' imgs of
                  Inl e \<Rightarrow> Inl e
                | Inr (hp'', resized_array) \<Rightarrow> Inr (hp'', r # resized_array))))"

definition resize :: "resampler \<Rightarrow> heap \<Rightarrow> ref list \<Rightarrow> string \<Rightarrow> pyerror + heap \<times> ref list \<times> (nat \<times> nat)" where
  \<comment> \<open>returns the new heap, \<^verbatim>\<open>resized_array\<close> and \<^verbatim>\<open>(_width, _height)\<close>;
      \<^verbatim>\<open>img_array[0]\<close> raises \<^verbatim>\<open>IndexError\<close> on the empty list\<close>
  "resize cv2_resize hp img_array align_mode =
     (case img_array of
        [] \<Rightarrow> Inl IndexError
      | first_img # rest \<Rightarrow>
          (case unpack2 (shape2 (hp ! first_img)) of
             Inl e \<Rightarrow> Inl e
           | Inr (h0, w0) \<Rightarrow>
               (case scan_sizes hp align_mode (h0, w0) rest of
                  Inl e \<Rightarrow> Inl e
                | Inr (H, W) \<Rightarrow>
                    (case resize_each cv2_resize (H, W) hp img_array of
                       Inl e \<Rightarrow> Inl e
                     | Inr (hp', resized_array) \<Rightarrow> Inr (hp', resized_array, (W, H))))))"

text \<open>
  The height and the width of an image with at least two dimensions, and a resampler to
  run the model with: it returns a black image of the requested size and raises on an
  empty size.
\<close>

definition height :: "ndarray \<Rightarrow> nat" where
  "height a = (case shape a of h # w # cs \<Rightarrow> h | _ \<Rightarrow> 0)"

definition width :: "ndarray \<Rightarrow> nat" where
  "width a = (case shape a of h # w # cs \<Rightarrow> w | _ \<Rightarrow> 0)"

definition black_resize :: resampler where
  "black_resize img dsize =
     (case dsize of
        (w, h) \<Rightarrow>
          if w = 0 \<or> h = 0 then None
          else Some \<lparr>shape = h # w # drop 2 (shape img),
                    pixels = replicate (h * w * prod_list (drop 2 (shape img))) 0\<rparr>)"

definition failing_resize :: resampler where
  \<comment> \<open>a resampler that raises whenever it is called\<close>
  "failing_resize img dsize = None"

definition frame :: "nat \<Rightarrow> nat \<Rightarrow> nat \<Rightarrow> ndarray" where
  \<comment> \<open>a colour image of the given width and height, every sample \<open>v\<close>\<close>
  "frame w h v = \<lparr>shape = [h, w, 3], pixels = replicate (h * w * 3) v\<rparr>"

definition three_frames :: heap where
  \<comment> \<open>images of the sizes (10, 10), (20, 20) and (5, 30), as width and height\<close>
  "three_frames = [frame 10 10 1, frame 20 20 2, frame 5 30 3]"

definition twin_frames :: heap where
  \<comment> \<open>two different images of one size\<close>
  "twin_frames = [frame 10 10 1, frame 10 10 2]"

section \<open>\<^verbatim>\<open>images_to_video\<close> (lines 43 to 102)\<close>

subsection \<open>The world around the program\<close>

text \<open>
  \<^verbatim>\<open>images_to_video\<close> reads the file system and writes a video through library calls.
  What these calls answer is a parameter of the model, the record \<open>env\<close>:
  \<^item> \<open>listdir\<close>: the names of the entries of a directory, files and directories alike,
    in the order in which \<^verbatim>\<open>os.scandir\<close> gives them to \<^verbatim>\<open>glob\<close>; no name is empty or holds a
    slash, and the list is empty for a directory that does not exist or cannot be read;
  \<^item> \<open>glob_dirs\<close>: the directories that \<^verbatim>\<open>glob\<close> finds for a directory name with
    metacharacters, which it reads as a pattern;
  \<^item> \<open>glob_other\<close>: what \<^verbatim>\<open>glob.glob\<close> returns for a pattern that does not end with a star
    and a text without metacharacters; the program has no such pattern;
  \<^item> \<open>imread\<close>: the array that \<^verbatim>\<open>cv2.imread(filename)\<close> returns, \<open>None\<close> where it returns
    \<^verbatim>\<open>None\<close>;
  \<^item> \<open>resample\<close>: the resampler, \<^verbatim>\<open>cv2.resize\<close>;
  \<^item> \<open>sink_opens\<close>: whether the \<^verbatim>\<open>cv2.VideoWriter\<close> made from the output path, the codec,
    the frame rate and the frame size reports \<^verbatim>\<open>isOpened()\<close>;
  \<^item> \<open>write_raises\<close>: whether the call of \<^verbatim>\<open>out.write(img)\<close> for the frame of the given
    index raises (a \<^verbatim>\<open>cv2.error\<close>).

  What the program does to the world is the list of its \<open>event\<close>s, in order. The frames
  of the video are the \<open>SinkWrite\<close> events: a frame is recorded when \<^verbatim>\<open>out.write\<close>
  returns.
\<close>

record env =
  listdir :: "string \<Rightarrow> string list"
  glob_dirs :: "string \<Rightarrow> string list"
  glob_other :: "string \<Rightarrow> string list"
  imread :: "string \<Rightarrow> ndarray option"
  resample :: resampler
  sink_opens :: "string \<Rightarrow> string \<Rightarrow> int \<Rightarrow> nat \<times> nat \<Rightarrow> bool"
  write_raises :: "nat \<Rightarrow> ndarray \<Rightarrow> bool"

datatype message =
    StartReading string       \<comment> \<open>line 66\<close>
  | Progress nat nat          \<comment> \<open>line 69: the index of the file and the number of files\<close>
  | Warning string            \<comment> \<open>line 72: the file could not be read\<close>
  | ReadCount nat             \<comment> \<open>line 84\<close>
  | SizeInfo "nat \<times> nat"      \<comment> \<open>line 88\<close>

datatype event =
    Glob string
  | Print message
  | Imread string
  | SinkOpen string string int "nat \<times> nat" bool
  | SinkWrite ndarray
  | SinkRelease

subsection \<open>Discovery (lines 51 to 60)\<close>

text \<open>
  \<^verbatim>\<open>glob.glob(pathname)\<close> as Python 3.11 defines it on a POSIX system, for the patterns of
  the program. \<^verbatim>\<open>os.path.split\<close> cuts the pathname after its last slash into the name of a
  directory, without its trailing slashes unless it is made of slashes only, and a
  pattern for the names. A directory name with one of the metacharacters \<^verbatim>\<open>* ? [\<close> is a
  pattern itself and stands for every directory it matches. \<^verbatim>\<open>_glob1\<close> lists a
  directory, leaves out the names that begin with a dot, as the pattern does not, and
  keeps the names that \<^verbatim>\<open>fnmatch\<close> accepts: for a star and a text, the names that end
  with the text, upper and lower case being different letters. Every name found is
  joined to the name of its directory with \<^verbatim>\<open>os.path.join\<close>. Nothing asks whether an entry
  is a file.
\<close>

definition slash :: char where
  "slash = CHR ''/''"

definition has_magic :: "string \<Rightarrow> bool" where
  \<comment> \<open>\<^verbatim>\<open>magic_check = re.compile('([*?[])')\<close>\<close>
  "has_magic s \<longleftrightarrow> list_ex (\<lambda>c. c = CHR ''*'' \<or> c = CHR ''?'' \<or> c = CHR ''['') s"

definition path_split :: "string \<Rightarrow> string \<times> string" where
  \<comment> \<open>\<^verbatim>\<open>posixpath.split\<close>\<close>
  "path_split p =
     (let tail = rev (takeWhile (\<lambda>c. c \<noteq> slash) (rev p));
          head = take (length p - length tail) p
      in (if head \<noteq> [] \<and> \<not> list_all (\<lambda>c. c = slash) head then py_rstrip slash head else head,
          tail))"

definition path_join :: "string \<Rightarrow> string \<Rightarrow> string" where
  \<comment> \<open>\<^verbatim>\<open>posixpath.join\<close> of two components\<close>
  "path_join a b =
     (if b \<noteq> [] \<and> hd b = slash then b
      else if a = [] \<or> last a = slash then a @ b
      else a @ [slash] @ b)"

definition is_hidden :: "string \<Rightarrow> bool" where
  \<comment> \<open>\<^verbatim>\<open>_ishidden\<close>: \<^verbatim>\<open>path[0] == '.'\<close>, asked of names that are not empty\<close>
  "is_hidden name \<longleftrightarrow> name \<noteq> [] \<and> hd name = CHR ''.''"

definition glob1 :: "env \<Rightarrow> string \<Rightarrow> string \<Rightarrow> string list" where
  \<comment> \<open>\<^verbatim>\<open>_glob1(dirname, '*' + suffix)\<close>: the names of the directory that are not hidden and
      end with \<open>suffix\<close>, in the order of the listing\<close>
  "glob1 world dirname suffix =
     filter (\<lambda>name. py_endswith name suffix)
       (filter (\<lambda>name. \<not> is_hidden name) (listdir world dirname))"

definition glob :: "env \<Rightarrow> string \<Rightarrow> string list" where
  "glob world pathname =
     (case path_split pathname of
        (dirname, basename) \<Rightarrow>
          (case basename of
             [] \<Rightarrow> glob_other world pathname
           | c # suffix \<Rightarrow>
               if c = CHR ''*'' \<and> \<not> has_magic suffix
               then concat (map (\<lambda>d. map (path_join d) (glob1 world d suffix))
                              (if has_magic dirname then glob_dirs world dirname else [dirname]))
               else glob_other world pathname))"

definition supported_formats :: "string list" where
  "supported_formats = [''*.jpg'', ''*.jpeg'', ''*.png'', ''*.bmp'']"

definition patterns :: "string \<Rightarrow> string list" where
  \<comment> \<open>\<^verbatim>\<open>path + '/' + fmt\<close> for every format\<close>
  "patterns path = map (\<lambda>fmt. path @ ''/'' @ fmt) supported_formats"

definition discover :: "env \<Rightarrow> string \<Rightarrow> string list" where
  \<comment> \<open>\<^verbatim>\<open>image_files\<close> after the loop of lines 56 and 57\<close>
  "discover world path = concat (map (glob world) (patterns path))"

text \<open>
  For the statements on discovery: \<open>image_dir\<close> is the directory that \<^verbatim>\<open>os.path.split\<close>
  cuts from \<^verbatim>\<open>path + '/' + fmt\<close>, and a name has an image extension when it ends with the
  text after the star of one of the four formats.
\<close>

definition image_dir :: "string \<Rightarrow> string" where
  "image_dir path = fst (path_split (path @ [slash]))"

definition has_image_extension :: "string \<Rightarrow> bool" where
  "has_image_extension name \<longleftrightarrow> list_ex (\<lambda>fmt. py_endswith name (tl fmt)) supported_formats"

subsection \<open>Decoding and colour (lines 67 to 79)\<close>

text \<open>
  \<^verbatim>\<open>cv2.cvtColor\<close> with \<^verbatim>\<open>COLOR_GRAY2BGR\<close> gives every pixel of a grey image three equal
  samples; with \<^verbatim>\<open>COLOR_BGRA2BGR\<close> it keeps the first three of the four samples of every
  pixel. Both raise on an image of another shape and on an empty array, one with a
  dimension of length 0.
\<close>

definition is_empty :: "ndarray \<Rightarrow> bool" where
  "is_empty img \<longleftrightarrow> 0 \<in> set (shape img)"

fun drop_alpha :: "nat list \<Rightarrow> nat list" where
  "drop_alpha (b # g # r # a # rest) = b # g # r # drop_alpha rest"
| "drop_alpha rest = []"

definition gray2bgr :: "ndarray \<Rightarrow> pyerror + ndarray" where
  "gray2bgr img =
     (if length (shape img) = 2 \<and> \<not> is_empty img
      then Inr \<lparr>shape = shape img @ [3], pixels = concat (map (\<lambda>v. [v, v, v]) (pixels img))\<rparr>
      else Inl Cv2Error)"

definition bgra2bgr :: "ndarray \<Rightarrow> pyerror + ndarray" where
  "bgra2bgr img =
     (if length (shape img) = 3 \<and> shape img ! 2 = 4 \<and> \<not> is_empty img
      then Inr \<lparr>shape = take 2 (shape img) @ [3], pixels = drop_alpha (pixels img)\<rparr>
      else Inl Cv2Error)"

definition canonical :: "ndarray \<Rightarrow> pyerror + ndarray" where
  \<comment> \<open>lines 75 to 78; \<^verbatim>\<open>img.shape[2]\<close> raises \<^verbatim>\<open>IndexError\<close> on fewer than three dimensions\<close>
  "canonical img =
     (if length (shape img) = 2 then gray2bgr img
      else if length (shape img) < 3 then Inl IndexError
      else if shape img ! 2 = 4 then bgra2bgr img
      else Inr img)"

fun decode_all :: "env \<Rightarrow> nat \<Rightarrow> nat \<Rightarrow> heap \<Rightarrow> string list \<Rightarrow> event list \<times> (pyerror + heap \<times> ref list)" where
  \<comment> \<open>the loop of lines 67 to 79 from the file of index \<open>i\<close> on; returns the heap and the
      images appended to \<^verbatim>\<open>img_array\<close>\<close>
  "decode_all world total_files i hp [] = ([], Inr (hp, []))"
| "decode_all world total_files i hp (filename # image_files) =
     (let progress = (if i mod 10 = 0 then [Print (Progress i total_files)] else [])
      in case imread world filename of
           None \<Rightarrow>
             (case decode_all world total_files (Suc i) hp image_files of
                (evs, res) \<Rightarrow> (progress @ Imread filename # Print (Warning filename) # evs, res))
         | Some raw \<Rightarrow>
             (case canonical raw of
                Inl e \<Rightarrow> (progress @ [Imread filename], Inl e)
              | Inr img \<Rightarrow>
                  (case alloc hp img of
                     (hp', r) \<Rightarrow>
                       (case decode_all world total_files (Suc i) hp' image_files of
                          (evs, res) \<Rightarrow>
                            (progress @ Imread filename # evs,
                             case res of
                               Inl e \<Rightarrow> Inl e
                             | Inr (hp'', img_array) \<Rightarrow> Inr (hp'', r # img_array))))))"

subsection \<open>Encoding (lines 91 to 102)\<close>

fun write_all :: "env \<Rightarrow> heap \<Rightarrow> nat \<Rightarrow> ref list \<Rightarrow> event list \<times> (pyerror + unit)" where
  \<comment> \<open>the loop of lines 99 and 100 from the frame of index \<open>n\<close> on\<close>
  "write_all world hp n [] = ([], Inr ())"
| "write_all world hp n (img # imgs) =
     (if write_raises world n (hp ! img) then ([], Inl Cv2Error)
      else (case write_all world hp (Suc n) imgs of
              (evs, res) \<Rightarrow> (SinkWrite (hp ! img) # evs, res)))"

definition encode :: "env \<Rightarrow> heap \<Rightarrow> ref list \<Rightarrow> nat \<times> nat \<Rightarrow> string \<Rightarrow> int \<Rightarrow> string \<Rightarrow> event list \<times> (pyerror + unit)" where
  \<comment> \<open>\<^verbatim>\<open>cv2.VideoWriter_fourcc(*codec)\<close> takes exactly four characters; the
      \<^verbatim>\<open>finally\<close> clause releases the writer after the loop, however the loop ends\<close>
  "encode world hp img_array frame_size output_path fps codec =
     (if length codec \<noteq> 4 then ([], Inl TypeError)
      else if \<not> sink_opens world output_path codec fps frame_size
      then ([SinkOpen output_path codec fps frame_size False], Inl (ValueError SinkOpenFailed))
      else (case write_all world hp 0 img_array of
              (evs, res) \<Rightarrow> (SinkOpen output_path codec fps frame_size True # evs @ [SinkRelease], res)))"

subsection \<open>The whole function\<close>

definition images_to_video :: "env \<Rightarrow> string \<Rightarrow> string \<Rightarrow> int \<Rightarrow> string \<Rightarrow> event list \<times> (pyerror + unit)" where
  "images_to_video world path output_path fps codec =
     (let globs = map Glob (patterns path);
          image_files = discover world path
      in if image_files = [] then (globs, Inl (ValueError NoInputFiles))
         else case sort_by_key natural_sort_key image_files of
                Inl e \<Rightarrow> (globs, Inl e)
              | Inr sorted_files \<Rightarrow>
                  (case decode_all world (length sorted_files) 1 [] sorted_files of
                     (decoding, Inl e) \<Rightarrow> (globs @ Print (StartReading path) # decoding, Inl e)
                   | (decoding, Inr (hp, img_array)) \<Rightarrow>
                       if img_array = []
                       then (globs @ Print (StartReading path) # decoding,
                             Inl (ValueError NoDecodableImages))
                       else (case resize (resample world) hp img_array ''largest'' of
                               Inl e \<Rightarrow>
                                 (globs @ Print (StartReading path) # decoding @
                                    [Print (ReadCount (length img_array))], Inl e)
                             | Inr (hp', resized, frame_size) \<Rightarrow>
                                 (case encode world hp' resized frame_size output_path fps codec of
                                    (encoding, res) \<Rightarrow>
                                      (globs @ Print (StartReading path) # decoding @
                                         [Print (ReadCount (length img_array)),
                                          Print (SizeInfo frame_size)] @ encoding,
                                       res)))))"

subsection \<open>What a run is expected to log and to write\<close>

text \<open>
  The specification's account of the decode phase: every file is read, in order; a file
  that cannot be read is reported by a warning and skipped; the images that were read are
  kept in order, each in its three-channel form. \<open>decode_log\<close> is the log of such a
  phase, \<open>decoded\<close> are the images it keeps. \<open>fit\<close> is what the normaliser makes of one
  image for a target of height \<open>H\<close> and width \<open>W\<close>, \<open>frames\<close> are the frames that a run
  wrote, and \<open>sink_events\<close> are the events of a run that touch the video sink.
\<close>

fun decode_log :: "env \<Rightarrow> nat \<Rightarrow> nat \<Rightarrow> string list \<Rightarrow> event list" where
  "decode_log world total_files i [] = []"
| "decode_log world total_files i (filename # image_files) =
     (if i mod 10 = 0 then [Print (Progress i total_files)] else []) @
     Imread filename #
     (if imread world filename = None then [Print (Warning filename)] else []) @
     decode_log world total_files (Suc i) image_files"

definition canon :: "ndarray \<Rightarrow> ndarray" where
  "canon raw = (case canonical raw of Inl e \<Rightarrow> raw | Inr img \<Rightarrow> img)"

definition decoded :: "env \<Rightarrow> string list \<Rightarrow> ndarray list" where
  "decoded world image_files = map canon (List.map_filter (imread world) image_files)"

definition decoded_shape :: "ndarray \<Rightarrow> bool" where
  \<comment> \<open>the shapes of the arrays that \<^verbatim>\<open>cv2.imread\<close> returns: grey, or three or four channels,
      and at least one pixel\<close>
  "decoded_shape img \<longleftrightarrow>
     \<not> is_empty img \<and>
     (length (shape img) = 2 \<or> (length (shape img) = 3 \<and> (shape img ! 2 = 3 \<or> shape img ! 2 = 4)))"

definition decodable :: "env \<Rightarrow> bool" where
  "decodable world \<longleftrightarrow> (\<forall>filename img. imread world filename = Some img \<longrightarrow> decoded_shape img)"

definition fit :: "resampler \<Rightarrow> nat \<times> nat \<Rightarrow> ndarray \<Rightarrow> ndarray" where
  "fit cv2_resize hw img =
     (case hw of
        (H, W) \<Rightarrow>
          if shape2 img \<noteq> [H, W]
          then (case cv2_resize img (W, H) of None \<Rightarrow> img | Some resized \<Rightarrow> resized)
          else img)"

fun is_sink_event :: "event \<Rightarrow> bool" where
  "is_sink_event (SinkOpen output_path codec fps frame_size opened) = True"
| "is_sink_event (SinkWrite img) = True"
| "is_sink_event SinkRelease = True"
| "is_sink_event ev = False"

definition sink_events :: "event list \<Rightarrow> event list" where
  "sink_events evs = filter is_sink_event evs"

fun frames :: "event list \<Rightarrow> ndarray list" where
  "frames [] = []"
| "frames (SinkWrite img # evs) = img # frames evs"
| "frames (ev # evs) = frames evs"

fun reads :: "event list \<Rightarrow> string list" where
  \<comment> \<open>the files handed to \<^verbatim>\<open>cv2.imread\<close>, in order\<close>
  "reads [] = []"
| "reads (Imread filename # evs) = filename # reads evs"
| "reads (ev # evs) = reads evs"

fun warnings :: "event list \<Rightarrow> string list" where
  \<comment> \<open>the files reported by a warning, in order\<close>
  "warnings [] = []"
| "warnings (Print (Warning filename) # evs) = filename # warnings evs"
| "warnings (ev # evs) = warnings evs"

text \<open>
  A world to run the model in: the directory \<^verbatim>\<open>d\<close> holds a grey image of width 1 and
  height 2, an image with four channels of width 1 and height 1, an image with three
  channels of width 2 and height 1, a file \<^verbatim>\<open>bad3.jpg\<close> that cannot be read, and four
  entries more: a text file, a hidden file \<^verbatim>\<open>.cover.jpg\<close>, a file \<^verbatim>\<open>IMG7.JPG\<close> and a
  file \<^verbatim>\<open>jpg\<close>. No other directory exists. The sink opens and every write returns.
\<close>

definition sample_listdir :: "string \<Rightarrow> string list" where
  "sample_listdir dirname =
     (if dirname = ''d''
      then [''img10.jpg'', ''notes.txt'', ''img1.png'', ''.cover.jpg'', ''img2.jpg'',
            ''IMG7.JPG'', ''bad3.jpg'', ''jpg'']
      else [])"

definition sample_imread :: "string \<Rightarrow> ndarray option" where
  "sample_imread filename =
     (if filename = ''d/img10.jpg'' then Some \<lparr>shape = [2, 1], pixels = [5, 6]\<rparr>
      else if filename = ''d/img2.jpg'' then Some \<lparr>shape = [1, 1, 4], pixels = [1, 2, 3, 4]\<rparr>
      else if filename = ''d/img1.png'' then Some \<lparr>shape = [1, 2, 3], pixels = [1, 2, 3, 4, 5, 6]\<rparr>
      else None)"

definition sample_world :: env where
  "sample_world =
     \<lparr>listdir = sample_listdir, glob_dirs = (\<lambda>dirname. []), glob_other = (\<lambda>pathname. []),
      imread = sample_imread, resample = black_resize,
      sink_opens = (\<lambda>output_path codec fps frame_size. True),
      write_raises = (\<lambda>n img. False)\<rparr>"

definition closed_world :: env where
  \<comment> \<open>the same world with a sink that does not open\<close>
  "closed_world = sample_world\<lparr>sink_opens := (\<lambda>output_path codec fps frame_size. False)\<rparr>"

definition tearing_world :: env where
  \<comment> \<open>the same world where the write of the second frame raises\<close>
  "tearing_world = sample_world\<lparr>write_raises := (\<lambda>n img. n = 1)\<rparr>"

definition unreadable_world :: env where
  \<comment> \<open>the same world where no file can be read\<close>
  "unreadable_world = sample_world\<lparr>imread := (\<lambda>filename. None)\<rparr>"

definition black_frame :: ndarray where
  "black_frame = \<lparr>shape = [2, 2, 3], pixels = [0, 0, 0, 0, 0, 0, 0, 0, 0, 0, 0, 0]\<rparr>"

definition sample_decoding :: "event list" where
  \<comment> \<open>what a run in the directory \<^verbatim>\<open>d\<close> logs up to the normaliser\<close>
  "sample_decoding =
     [Glob ''d/*.jpg'', Glob ''d/*.jpeg'', Glob ''d/*.png'', Glob ''d/*.bmp'',
      Print (StartReading ''d''), Imread ''d/bad3.jpg'', Print (Warning ''d/bad3.jpg''),
      Imread ''d/img1.png'', Imread ''d/img2.jpg'', Imread ''d/img10.jpg'',
      Print (ReadCount 3), Print (SizeInfo (2, 2))]"

section \<open>Properties of the output path\<close>

lemma py_endswith_append: "py_endswith (s @ t) t"
  by (simp add: py_endswith_def)

lemma py_endswith_append2: "py_endswith t u \<Longrightarrow> py_endswith (s @ t) u"
  by (auto simp add: py_endswith_def)

lemma py_lower_append: "py_lower (s @ t) = py_lower s @ py_lower t"
  by (simp add: py_lower_def)

lemma py_lower_suffixes:
  "py_lower ''.mp4'' = ''.mp4''"
  "py_lower (backslash # ''output.mp4'') = backslash # ''output.mp4''"
  by code_simp+

text \<open>
  C8. A path that ends with \<^verbatim>\<open>.mp4\<close>, compared without regard to case, is passed through
  unchanged. Any other path is extended so that the path used for the video ends with
  \<^verbatim>\<open>.mp4\<close>: by \<^verbatim>\<open>.mp4\<close> itself when it holds no backslash, and otherwise, its trailing
  backslashes removed, by a backslash and \<^verbatim>\<open>output.mp4\<close>. So whatever line the user
  enters, the path that \<^verbatim>\<open>main\<close> hands to \<^verbatim>\<open>images_to_video\<close> ends with \<^verbatim>\<open>.mp4\<close> in some
  spelling of upper and lower case.
\<close>

theorem fix_extension_mp4:
  "(py_endswith (py_lower p) ''.mp4'' \<longrightarrow> fix_extension p = p) \<and>
   (\<not> py_endswith (py_lower p) ''.mp4'' \<longrightarrow>
      py_endswith (fix_extension p) ''.mp4'' \<and>
      (backslash \<notin> set p \<longrightarrow> fix_extension p = p @ ''.mp4'') \<and>
      (backslash \<in> set p \<longrightarrow>
         fix_extension p = py_rstrip backslash p @ backslash # ''output.mp4'')) \<and>
   py_endswith (py_lower (main_output_path line)) ''.mp4''"
proof -
  have plain: "py_endswith (q @ ''.mp4'') ''.mp4''" for q
    by (rule py_endswith_append)
  have dir: "py_endswith (q @ backslash # ''output.mp4'') ''.mp4''" for q
    using py_endswith_append2 [of "backslash # ''output.mp4''" "''.mp4''" q]
    by (simp add: py_endswith_def)
  have lower: "py_endswith (py_lower (fix_extension q)) ''.mp4''" for q
  proof (cases "py_endswith (py_lower q) ''.mp4''")
    case True
    then show ?thesis
      by (simp add: fix_extension_def)
  next
    case False
    have "py_endswith (py_lower q @ ''.mp4'') ''.mp4''"
      by (rule plain)
    moreover have "py_endswith (py_lower (py_rstrip backslash q) @ backslash # ''output.mp4'') ''.mp4''"
      by (rule dir)
    ultimately show ?thesis
      using False by (simp add: fix_extension_def py_lower_append py_lower_suffixes)
  qed
  from plain [of p] dir [of "py_rstrip backslash p"] lower [of "output_path_of line"]
  show ?thesis
    by (simp add: fix_extension_def main_output_path_def)
qed

theorem fix_extension_mp4_witness:
  "\<not> py_endswith (py_lower ''clip.avi'') ''.mp4'' \<and>
   fix_extension ''clip.avi'' = ''clip.avi.mp4'' \<and>
   py_endswith (py_lower ''CLIP.Mp4'') ''.mp4'' \<and>
   fix_extension ''CLIP.Mp4'' = ''CLIP.Mp4'' \<and>
   backslash \<in> set (''out'' @ [backslash, backslash]) \<and>
   fix_extension (''out'' @ [backslash, backslash]) = ''out'' @ backslash # ''output.mp4'' \<and>
   main_output_path ''  '' = ''demo.mp4'' \<and>
   py_endswith (py_lower (main_output_path ''  '')) ''.mp4''"
proof -
  have a: "\<not> py_endswith (py_lower ''clip.avi'') ''.mp4''"
    by code_simp
  have b: "py_endswith (py_lower ''CLIP.Mp4'') ''.mp4''"
    by code_simp
  have c: "\<not> py_endswith (py_lower (''out'' @ [backslash, backslash])) ''.mp4''"
    by code_simp
  have d: "py_rstrip backslash (''out'' @ [backslash, backslash]) = ''out''"
    by code_simp
  have e: "backslash \<notin> set ''clip.avi''"
    by code_simp
  have f: "main_output_path ''  '' = ''demo.mp4''"
    by code_simp
  have g: "py_endswith (py_lower (main_output_path ''  '')) ''.mp4''"
    using fix_extension_mp4 [of _ "''  ''"] by blast
  show ?thesis
    using fix_extension_mp4 [of "''clip.avi''"] fix_extension_mp4 [of "''CLIP.Mp4''"]
      fix_extension_mp4 [of "''out'' @ [backslash, backslash]"] a b c d e f g
    by simp
qed

section \<open>Properties of the natural sort\<close>

text \<open>
  C2. The claim is that every file name has a key of alternating texts and integers and
  that every list of names sorted with this key is in numeric order. On names made of
  ASCII letters and digits the code does this: \<^verbatim>\<open>["img2.jpg", "img10.jpg", "img1.jpg"]\<close>
  sorts to \<^verbatim>\<open>["img1.jpg", "img2.jpg", "img10.jpg"]\<close>, and the key of \<^verbatim>\<open>Img10.JPG\<close> is the
  text \<^verbatim>\<open>img\<close>, the integer 10 and the text \<^verbatim>\<open>.jpg\<close>. But the code cuts a name at
  \<^verbatim>\<open>[0-9]+\<close> and then asks \<^verbatim>\<open>text.isdigit()\<close> of every piece, and a text between two digit
  runs that is made of other digit characters passes that test. With the superscript two
  U+00B2 between \<^verbatim>\<open>img1\<close> and \<^verbatim>\<open>3.jpg\<close> the pieces are \<^verbatim>\<open>img\<close>, \<^verbatim>\<open>1\<close>, U+00B2, \<^verbatim>\<open>3\<close>,
  \<^verbatim>\<open>.jpg\<close>; \<^verbatim>\<open>int\<close> raises on the third, and the sort of a list that holds this name
  raises instead of returning the names in numeric order.
\<close>

theorem natural_sort_numeric_order_breaks:
  "sort_by_key natural_sort_key [''img2.jpg'', ''img10.jpg'', ''img1.jpg'']
     = Inr [''img1.jpg'', ''img2.jpg'', ''img10.jpg''] \<and>
   natural_sort_key ''Img10.JPG'' = Inr [TStr ''img'', TInt 10, TStr ''.jpg''] \<and>
   re_split (''img1'' @ [CHR 0xB2] @ ''3.jpg'') = [''img'', ''1'', [CHR 0xB2], ''3'', ''.jpg''] \<and>
   py_isdigit [CHR 0xB2] \<and>
   py_int [CHR 0xB2] = Inl (ValueError InvalidLiteral) \<and>
   sort_by_key natural_sort_key [''img2.jpg'', ''img10.jpg'', ''img1'' @ [CHR 0xB2] @ ''3.jpg'']
     = Inl (ValueError InvalidLiteral)"
  by code_simp

text \<open>
  C10. The claim is that the key is returned for every string, with a \<^verbatim>\<open>str\<close> at every
  even and an \<^verbatim>\<open>int\<close> at every odd position, so that sorting is total. The code decides
  with \<^verbatim>\<open>text.isdigit()\<close> which pieces to convert, while it cuts the name at \<^verbatim>\<open>[0-9]+\<close>: a
  text made of superscript digits only, such as the character U+00B2, is no digit run of the
  pattern but satisfies \<^verbatim>\<open>isdigit\<close>, and \<^verbatim>\<open>int\<close> raises \<^verbatim>\<open>ValueError\<close> on it. The key is
  not returned for the one-character name U+00B2, nor for the path \<^verbatim>\<open>a/1\<close>, U+00B2,
  \<^verbatim>\<open>3.jpg\<close>, and a sort
  of a list holding that name raises.
\<close>

theorem natural_sort_key_superscript:
  "natural_sort_key [CHR 0xB2] = Inl (ValueError InvalidLiteral) \<and>
   natural_sort_key (''a/1'' @ [CHR 0xB2] @ ''3.jpg'') = Inl (ValueError InvalidLiteral) \<and>
   sort_by_key natural_sort_key [''a/1.jpg'', ''a/1'' @ [CHR 0xB2] @ ''3.jpg'']
     = Inl (ValueError InvalidLiteral)"
  by code_simp

section \<open>Properties of \<^verbatim>\<open>resize\<close>\<close>

lemma unpack2_shape2:
  "unpack2 (shape2 a) =
     (if 2 \<le> length (shape a) then Inr (height a, width a) else Inl (ValueError UnpackCount))"
proof (cases "shape a")
  case Nil
  then show ?thesis
    by (simp add: unpack2_def shape2_def)
next
  case (Cons h ws)
  then show ?thesis
    by (cases ws) (simp_all add: unpack2_def shape2_def height_def width_def)
qed

lemma scan_sizes_eq:
  "scan_sizes hp align_mode (H, W) imgs =
     (if list_all (\<lambda>r. 2 \<le> length (shape (hp ! r))) imgs
      then Inr (foldl (if align_mode = ''smallest'' then min else max) H
                  (map (\<lambda>r. height (hp ! r)) imgs),
                foldl (if align_mode = ''smallest'' then min else max) W
                  (map (\<lambda>r. width (hp ! r)) imgs))
      else Inl (ValueError UnpackCount))"
proof (induction imgs arbitrary: H W)
  case Nil
  show ?case by simp
next
  case (Cons img imgs)
  show ?case
  proof (cases "align_mode = ''smallest''")
    case True
    show ?thesis
      using Cons [of "min H (height (hp ! img))" "min W (width (hp ! img))"] True
      by (simp add: unpack2_shape2)
  next
    case False
    show ?thesis
      using Cons [of "max H (height (hp ! img))" "max W (width (hp ! img))"] False
      by (simp add: unpack2_shape2)
  qed
qed

lemma foldl_min_Min: "foldl min (x::nat) xs = Min (set (x # xs))"
proof -
  have "foldl min x xs = fold min xs x"
    by (induction xs arbitrary: x) (simp_all add: min.commute)
  then show ?thesis
    by (simp only: Min.set_eq_fold)
qed

lemma foldl_max_Max: "foldl max (x::nat) xs = Max (set (x # xs))"
proof -
  have "foldl max x xs = fold max xs x"
    by (induction xs arbitrary: x) (simp_all add: max.commute)
  then show ?thesis
    by (simp only: Max.set_eq_fold)
qed

lemma resize_each_Inr:
  assumes "resampler_ok cv2_resize"
    and "resize_each cv2_resize (H, W) hp imgs = Inr (hp', out)"
  shows "out = [length hp..<length hp'] \<and>
         length hp' = length hp + length imgs \<and>
         take (length hp) hp' = hp \<and>
         list_all (\<lambda>r. shape2 (hp' ! r) = [H, W]) out"
  using assms(2)
proof (induction imgs arbitrary: hp out)
  case Nil
  then show ?case by simp
next
  case (Cons img imgs)
  let ?new = "if shape2 (hp ! img) \<noteq> [H, W] then cv2_resize (hp ! img) (W, H) else Some (hp ! img)"
  from Cons.prems obtain a out' where a: "?new = Some a"
    and rest: "resize_each cv2_resize (H, W) (hp @ [a]) imgs = Inr (hp', out')"
    and out: "out = length hp # out'"
    by (auto simp add: alloc_def split: sum.splits option.splits)
  have sa: "shape2 a = [H, W]"
    using a assms(1) by (auto simp add: resampler_ok_def split: if_splits)
  from Cons.IH [OF rest] have out': "out' = [length (hp @ [a])..<length hp']"
    and len: "length hp' = length (hp @ [a]) + length imgs"
    and tk: "take (length (hp @ [a])) hp' = hp @ [a]"
    and sh: "list_all (\<lambda>r. shape2 (hp' ! r) = [H, W]) out'"
    by blast+
  from tk have "take (length hp) (take (length (hp @ [a])) hp') = hp"
    by simp
  then have tk': "take (length hp) hp' = hp"
    by (simp add: min_def)
  have "hp' ! length hp = take (length (hp @ [a])) hp' ! length hp"
    by simp
  also have "\<dots> = (hp @ [a]) ! length hp"
    by (simp only: tk)
  finally have at: "hp' ! length hp = a"
    by simp
  from len have lt: "length hp < length hp'"
    by simp
  have "out = [length hp..<length hp']"
    using out out' lt by (simp add: upt_conv_Cons)
  moreover have "length hp' = length hp + length (img # imgs)"
    using len by simp
  moreover have "list_all (\<lambda>r. shape2 (hp' ! r) = [H, W]) out"
    using out sh at sa by simp
  ultimately show ?case
    using tk' by blast
qed

lemma resize_each_Inl:
  "resize_each cv2_resize (H, W) hp imgs = Inl e \<Longrightarrow>
   e = Cv2Error \<and> (\<exists>img dsize. cv2_resize img dsize = None)"
proof (induction imgs arbitrary: hp)
  case Nil
  then show ?case by simp
next
  case (Cons img imgs)
  then show ?case
    by (auto simp add: alloc_def split: sum.splits if_splits prod.splits option.splits)
qed

lemma resampler_ok_black: "resampler_ok black_resize"
  by (auto simp add: resampler_ok_def black_resize_def shape2_def split: if_splits)

lemma resampler_ok_failing: "resampler_ok failing_resize"
  by (simp add: resampler_ok_def failing_resize_def)

text \<open>
  C1. For a non-empty list of images, and a resampler that returns images of the
  requested size: when \<^verbatim>\<open>resize\<close> returns, the target is the pair (width, height) of the
  minimum of the widths and the minimum of the heights under the policy \<^verbatim>\<open>'smallest'\<close>,
  and of the two maxima under any other policy; the returned list is as long as the
  input, and every returned image has the height and the width of the target. The only
  exceptions on a non-empty list are that of unpacking the shape of an array with fewer
  than two dimensions, and the \<^verbatim>\<open>cv2.error\<close> that \<^verbatim>\<open>cv2.resize\<close> itself raises. On images of the
  sizes (10, 10), (20, 20), (5, 30) the targets are (5, 10) and (20, 30).
\<close>

theorem resize_target:
  assumes ok: "resampler_ok cv2_resize" and ne: "img_array \<noteq> []"
  shows "(resize cv2_resize hp img_array align_mode = Inr (hp', resized_array, target) \<longrightarrow>
            target =
              (if align_mode = ''smallest''
               then (Min (set (map (\<lambda>r. width (hp ! r)) img_array)),
                     Min (set (map (\<lambda>r. height (hp ! r)) img_array)))
               else (Max (set (map (\<lambda>r. width (hp ! r)) img_array)),
                     Max (set (map (\<lambda>r. height (hp ! r)) img_array)))) \<and>
            length resized_array = length img_array \<and>
            list_all (\<lambda>r. shape2 (hp' ! r) = [snd target, fst target]) resized_array) \<and>
         (resize cv2_resize hp img_array align_mode = Inl e \<longrightarrow>
            (e = ValueError UnpackCount \<and> list_ex (\<lambda>r. length (shape (hp ! r)) < 2) img_array) \<or>
            (e = Cv2Error \<and> (\<exists>img dsize. cv2_resize img dsize = None)))"
proof -
  from ne obtain first_img rest where ia: "img_array = first_img # rest"
    by (cases img_array) auto
  let ?f = "if align_mode = ''smallest'' then min else max"
  let ?H = "foldl ?f (height (hp ! first_img)) (map (\<lambda>r. height (hp ! r)) rest)"
  let ?W = "foldl ?f (width (hp ! first_img)) (map (\<lambda>r. width (hp ! r)) rest)"
  show ?thesis
  proof (cases "list_all (\<lambda>r. 2 \<le> length (shape (hp ! r))) img_array")
    case False
    then have "resize cv2_resize hp img_array align_mode = Inl (ValueError UnpackCount)"
      using ia by (auto simp add: resize_def unpack2_shape2 scan_sizes_eq)
    moreover from False have "list_ex (\<lambda>r. length (shape (hp ! r)) < 2) img_array"
      by (auto simp add: list_all_iff list_ex_iff not_le)
    ultimately show ?thesis
      by simp
  next
    case True
    then have unfold: "resize cv2_resize hp img_array align_mode =
        (case resize_each cv2_resize (?H, ?W) hp img_array of
           Inl e \<Rightarrow> Inl e
         | Inr (hp', resized_array) \<Rightarrow> Inr (hp', resized_array, (?W, ?H)))"
      using ia by (simp add: resize_def unpack2_shape2 scan_sizes_eq)
    have H: "?H = (if align_mode = ''smallest''
                   then Min (set (map (\<lambda>r. height (hp ! r)) img_array))
                   else Max (set (map (\<lambda>r. height (hp ! r)) img_array)))"
      using ia by (simp add: foldl_min_Min foldl_max_Max)
    have W: "?W = (if align_mode = ''smallest''
                   then Min (set (map (\<lambda>r. width (hp ! r)) img_array))
                   else Max (set (map (\<lambda>r. width (hp ! r)) img_array)))"
      using ia by (simp add: foldl_min_Min foldl_max_Max)
    show ?thesis
    proof (cases "resize_each cv2_resize (?H, ?W) hp img_array")
      case (Inl e')
      then have "resize cv2_resize hp img_array align_mode = Inl e'"
        using unfold by simp
      moreover have "e' = Cv2Error \<and> (\<exists>img dsize. cv2_resize img dsize = None)"
        using Inl by (rule resize_each_Inl)
      ultimately show ?thesis
        by auto
    next
      case (Inr res)
      obtain hp2 out where res: "res = (hp2, out)"
        by (cases res)
      with Inr have each: "resize_each cv2_resize (?H, ?W) hp img_array = Inr (hp2, out)"
        by simp
      then have r: "resize cv2_resize hp img_array align_mode = Inr (hp2, out, (?W, ?H))"
        using unfold by simp
      from resize_each_Inr [OF ok each]
      have "out = [length hp..<length hp2]" "length hp2 = length hp + length img_array"
        "list_all (\<lambda>r. shape2 (hp2 ! r) = [?H, ?W]) out"
        by blast+
      then have "length out = length img_array" "list_all (\<lambda>r. shape2 (hp2 ! r) = [?H, ?W]) out"
        by simp_all
      with r H W show ?thesis
        by auto
    qed
  qed
qed

theorem resize_target_witness:
  "resampler_ok black_resize \<and> [0, 1, 2] \<noteq> ([] :: ref list) \<and>
   resize black_resize three_frames [0, 1, 2] ''smallest''
     = Inr (three_frames @ [frame 5 10 0, frame 5 10 0, frame 5 10 0], [3, 4, 5], (5, 10)) \<and>
   (5, 10) = (Min (set (map (\<lambda>r. width (three_frames ! r)) [0, 1, 2])),
              Min (set (map (\<lambda>r. height (three_frames ! r)) [0, 1, 2]))) \<and>
   list_all (\<lambda>r. shape2 ((three_frames @ [frame 5 10 0, frame 5 10 0, frame 5 10 0]) ! r) = [10, 5])
     [3, 4, 5] \<and>
   resize black_resize three_frames [0, 1, 2] ''largest''
     = Inr (three_frames @ [frame 20 30 0, frame 20 30 0, frame 20 30 0], [3, 4, 5], (20, 30)) \<and>
   (20, 30) = (Max (set (map (\<lambda>r. width (three_frames ! r)) [0, 1, 2])),
               Max (set (map (\<lambda>r. height (three_frames ! r)) [0, 1, 2]))) \<and>
   list_all (\<lambda>r. shape2 ((three_frames @ [frame 20 30 0, frame 20 30 0, frame 20 30 0]) ! r) = [30, 20])
     [3, 4, 5] \<and>
   resize failing_resize three_frames [0, 1, 2] ''largest'' = Inl Cv2Error"
proof -
  have ne: "[0, 1, 2] \<noteq> ([] :: ref list)"
    by simp
  have small: "resize black_resize three_frames [0, 1, 2] ''smallest''
     = Inr (three_frames @ [frame 5 10 0, frame 5 10 0, frame 5 10 0], [3, 4, 5], (5, 10))"
    by (simp add: resize_def three_frames_def frame_def unpack2_def shape2_def alloc_def
        black_resize_def)
  have large: "resize black_resize three_frames [0, 1, 2] ''largest''
     = Inr (three_frames @ [frame 20 30 0, frame 20 30 0, frame 20 30 0], [3, 4, 5], (20, 30))"
    by (simp add: resize_def three_frames_def frame_def unpack2_def shape2_def alloc_def
        black_resize_def)
  have fail: "resize failing_resize three_frames [0, 1, 2] ''largest'' = Inl Cv2Error"
    by (simp add: resize_def three_frames_def frame_def unpack2_def shape2_def alloc_def
        failing_resize_def)
  note s = resize_target [OF resampler_ok_black ne, THEN conjunct1, rule_format, OF small]
  note l = resize_target [OF resampler_ok_black ne, THEN conjunct1, rule_format, OF large]
  from s have s1: "(5, 10) = (Min (set (map (\<lambda>r. width (three_frames ! r)) [0, 1, 2])),
              Min (set (map (\<lambda>r. height (three_frames ! r)) [0, 1, 2])))"
    and s2: "list_all (\<lambda>r. shape2 ((three_frames @ [frame 5 10 0, frame 5 10 0, frame 5 10 0]) ! r) = [10, 5])
     [3, 4, 5]"
    by simp_all
  from l have l1: "(20, 30) = (Max (set (map (\<lambda>r. width (three_frames ! r)) [0, 1, 2])),
               Max (set (map (\<lambda>r. height (three_frames ! r)) [0, 1, 2])))"
    and l2: "list_all (\<lambda>r. shape2 ((three_frames @ [frame 20 30 0, frame 20 30 0, frame 20 30 0]) ! r) = [30, 20])
     [3, 4, 5]"
    by simp_all
  show ?thesis
    by (intro conjI) (fact resampler_ok_black ne small s1 s2 large l1 l2 fail)+
qed

text \<open>
  C9. On the empty list \<^verbatim>\<open>resize\<close> returns nothing: \<^verbatim>\<open>img_array[0]\<close> raises, whatever
  the policy. The exception is Python's \<^verbatim>\<open>IndexError\<close>, which is the error that the
  specification calls \<^verbatim>\<open>PreconditionError\<close>.
\<close>

theorem resize_empty:
  "resize cv2_resize hp [] align_mode = Inl IndexError"
  by (simp add: resize_def)

lemma scan_sizes_uniform:
  "list_all (\<lambda>r. unpack2 (shape2 (hp ! r)) = Inr (H, W)) imgs \<Longrightarrow>
   scan_sizes hp align_mode (H, W) imgs = Inr (H, W)"
proof (induction imgs)
  case Nil
  show ?case by simp
next
  case (Cons img imgs)
  then have "unpack2 (shape2 (hp ! img)) = Inr (H, W)"
    and "scan_sizes hp align_mode (H, W) imgs = Inr (H, W)"
    by simp_all
  then show ?case
    by (cases "align_mode = ''smallest''") simp_all
qed

lemma unpack2_Inr: "unpack2 t = Inr (H, W) \<Longrightarrow> t = [H, W]"
  by (auto simp add: unpack2_def split: list.splits)

lemma resize_each_uniform:
  "refs_ok hp imgs \<Longrightarrow> list_all (\<lambda>r. shape2 (hp ! r) = [H, W]) imgs \<Longrightarrow>
   resize_each cv2_resize (H, W) hp imgs
     = Inr (hp @ map (\<lambda>r. hp ! r) imgs, [length hp..<length hp + length imgs])"
proof (induction imgs arbitrary: hp)
  case Nil
  then show ?case by simp
next
  case (Cons img imgs)
  let ?hp = "hp @ [hp ! img]"
  from Cons.prems have valid: "list_all (\<lambda>r. r < length hp) imgs"
    by (simp add: refs_ok_def)
  then have same: "map (\<lambda>r. ?hp ! r) imgs = map (\<lambda>r. hp ! r) imgs"
    by (simp add: list_all_iff nth_append)
  have "refs_ok ?hp imgs"
    using valid by (auto simp add: refs_ok_def list_all_iff)
  moreover have "list_all (\<lambda>r. shape2 (?hp ! r) = [H, W]) imgs"
    using Cons.prems(2) valid by (auto simp add: list_all_iff nth_append)
  ultimately have "resize_each cv2_resize (H, W) ?hp imgs
     = Inr (?hp @ map (\<lambda>r. ?hp ! r) imgs, [length ?hp..<length ?hp + length imgs])"
    by (rule Cons.IH)
  then have ih: "resize_each cv2_resize (H, W) ?hp imgs
     = Inr (hp @ hp ! img # map (\<lambda>r. hp ! r) imgs, [Suc (length hp)..<Suc (length hp) + length imgs])"
    by (simp only: same) simp
  have idx: "[length hp..<length hp + length (img # imgs)]
      = length hp # [Suc (length hp)..<Suc (length hp) + length imgs]"
    by (subst upt_rec) simp
  have "shape2 (hp ! img) = [H, W]"
    using Cons.prems(2) by simp
  then have step: "resize_each cv2_resize (H, W) hp (img # imgs) =
      (case resize_each cv2_resize (H, W) ?hp imgs of
         Inl e \<Rightarrow> Inl e
       | Inr (hp'', resized_array) \<Rightarrow> Inr (hp'', length hp # resized_array))"
    by (simp add: alloc_def)
  show ?case
    by (simp only: step ih idx sum.case prod.case list.map)
qed

text \<open>
  C3. When every image of a non-empty list has the same height and width, and so the
  size that \<^verbatim>\<open>resize\<close> computes, \<^verbatim>\<open>resize\<close> returns for every policy and every resampler,
  also one that raises whenever it is called: nothing is resampled. The target is that
  size, and the returned list holds, in order, one new array for each input, equal to it
  in shape and pixels. A returned array is no input array, and assigning to it leaves
  every input as it was. A single image returns a copy of itself and its own size.
\<close>

theorem resize_uniform_copies:
  assumes refs: "refs_ok hp img_array" and ne: "img_array \<noteq> []"
    and same: "list_all (\<lambda>r. 2 \<le> length (shape (hp ! r)) \<and> height (hp ! r) = H \<and> width (hp ! r) = W)
                 img_array"
  shows "\<exists>hp' resized_array.
           resize cv2_resize hp img_array align_mode = Inr (hp', resized_array, (W, H)) \<and>
           hp' = hp @ map (\<lambda>r. hp ! r) img_array \<and>
           resized_array = [length hp..<length hp + length img_array] \<and>
           (\<forall>i<length img_array.
              hp' ! (resized_array ! i) = hp ! (img_array ! i) \<and>
              resized_array ! i \<notin> set img_array \<and>
              (\<forall>v. \<forall>r\<in>set img_array. (hp'[resized_array ! i := v]) ! r = hp ! r))"
proof -
  let ?hp' = "hp @ map (\<lambda>r. hp ! r) img_array"
  let ?out = "[length hp..<length hp + length img_array]"
  from ne obtain first_img rest where ia: "img_array = first_img # rest"
    by (cases img_array) auto
  have u: "list_all (\<lambda>r. unpack2 (shape2 (hp ! r)) = Inr (H, W)) img_array"
    using same by (simp add: list_all_iff unpack2_shape2)
  then have s2: "list_all (\<lambda>r. shape2 (hp ! r) = [H, W]) img_array"
    by (auto simp add: list_all_iff dest: unpack2_Inr)
  have "scan_sizes hp align_mode (H, W) rest = Inr (H, W)"
    using u ia by (intro scan_sizes_uniform) simp
  moreover have "unpack2 (shape2 (hp ! first_img)) = Inr (H, W)"
    using u ia by simp
  moreover have "resize_each cv2_resize (H, W) hp img_array = Inr (?hp', ?out)"
    using refs s2 by (rule resize_each_uniform)
  ultimately have r: "resize cv2_resize hp img_array align_mode = Inr (?hp', ?out, (W, H))"
    unfolding resize_def ia by (simp only: list.case sum.case prod.case)
  have valid: "\<And>r. r \<in> set img_array \<Longrightarrow> r < length hp"
    using refs by (simp add: refs_ok_def list_all_iff)
  have "hp' ! (out ! i) = hp ! (img_array ! i) \<and> out ! i \<notin> set img_array \<and>
        (\<forall>v. \<forall>r\<in>set img_array. (hp'[out ! i := v]) ! r = hp ! r)"
    if i: "i < length img_array" and hp': "hp' = ?hp'" and out: "out = ?out" for i hp' out
  proof -
    have oi: "out ! i = length hp + i"
      using i out by simp
    have "hp' ! (out ! i) = hp ! (img_array ! i)"
      using i oi hp' by (simp add: nth_append)
    moreover have "out ! i \<notin> set img_array"
      using valid [of "out ! i"] oi by auto
    moreover have "(hp'[out ! i := v]) ! r = hp ! r" if "r \<in> set img_array" for v r
      using valid [OF that] oi hp' by (simp add: nth_append)
    ultimately show ?thesis
      by blast
  qed
  with r show ?thesis
    by blast
qed

theorem resize_uniform_copies_witness:
  "refs_ok twin_frames [0, 1] \<and> [0, 1] \<noteq> ([] :: ref list) \<and>
   list_all (\<lambda>r. 2 \<le> length (shape (twin_frames ! r)) \<and>
                 height (twin_frames ! r) = 10 \<and> width (twin_frames ! r) = 10) [0, 1] \<and>
   resize failing_resize twin_frames [0, 1] ''largest''
     = Inr (twin_frames @ [frame 10 10 1, frame 10 10 2], [2, 3], (10, 10)) \<and>
   (twin_frames @ [frame 10 10 1, frame 10 10 2]) ! 2 = twin_frames ! 0 \<and>
   ((twin_frames @ [frame 10 10 1, frame 10 10 2])[2 := frame 10 10 0]) ! 0 = twin_frames ! 0 \<and>
   refs_ok three_frames [2] \<and>
   resize failing_resize three_frames [2] ''smallest''
     = Inr (three_frames @ [frame 5 30 3], [3], (5, 30))"
proof -
  have refs: "refs_ok twin_frames [0, 1]"
    by (simp add: refs_ok_def twin_frames_def)
  have ne: "[0, 1] \<noteq> ([] :: ref list)"
    by simp
  have same: "list_all (\<lambda>r. 2 \<le> length (shape (twin_frames ! r)) \<and>
                 height (twin_frames ! r) = 10 \<and> width (twin_frames ! r) = 10) [0, 1]"
    by (simp add: twin_frames_def frame_def height_def width_def)
  from resize_uniform_copies [OF refs ne same, of failing_resize "''largest''"]
  obtain hp' out where r: "resize failing_resize twin_frames [0, 1] ''largest'' = Inr (hp', out, (10, 10))"
    and hp': "hp' = twin_frames @ map (\<lambda>r. twin_frames ! r) [0, 1]"
    and out: "out = [length twin_frames..<length twin_frames + length [0 :: ref, 1]]"
    and copies: "\<forall>i<length [0 :: ref, 1].
              hp' ! (out ! i) = twin_frames ! ([0, 1] ! i) \<and>
              out ! i \<notin> set [0, 1] \<and>
              (\<forall>v. \<forall>r\<in>set [0, 1]. (hp'[out ! i := v]) ! r = twin_frames ! r)"
    by blast
  have hp2: "hp' = twin_frames @ [frame 10 10 1, frame 10 10 2]"
    using hp' by (simp add: twin_frames_def)
  have out2: "out = [2, 3]"
    using out by (simp add: twin_frames_def upt_rec)
  from copies have "hp' ! (out ! 0) = twin_frames ! ([0, 1] ! 0)"
    and "(hp'[out ! 0 := frame 10 10 0]) ! 0 = twin_frames ! 0"
    by auto
  then have c1: "(twin_frames @ [frame 10 10 1, frame 10 10 2]) ! 2 = twin_frames ! 0"
    and c2: "((twin_frames @ [frame 10 10 1, frame 10 10 2])[2 := frame 10 10 0]) ! 0 = twin_frames ! 0"
    using hp2 out2 by simp_all
  have r2: "resize failing_resize twin_frames [0, 1] ''largest''
     = Inr (twin_frames @ [frame 10 10 1, frame 10 10 2], [2, 3], (10, 10))"
    using r hp2 out2 by simp
  have refs1: "refs_ok three_frames [2]"
    by (simp add: refs_ok_def three_frames_def)
  have same1: "list_all (\<lambda>r. 2 \<le> length (shape (three_frames ! r)) \<and>
                 height (three_frames ! r) = 30 \<and> width (three_frames ! r) = 5) [2]"
    by (simp add: three_frames_def frame_def height_def width_def)
  have ne1: "[2] \<noteq> ([] :: ref list)"
    by simp
  from resize_uniform_copies [OF refs1 ne1 same1, of failing_resize "''smallest''"]
  have "resize failing_resize three_frames [2] ''smallest''
     = Inr (three_frames @ map (\<lambda>r. three_frames ! r) [2],
            [length three_frames..<length three_frames + length [2 :: ref]], (5, 30))"
    by blast
  then have single: "resize failing_resize three_frames [2] ''smallest''
     = Inr (three_frames @ [frame 5 30 3], [3], (5, 30))"
    by (simp add: three_frames_def upt_rec)
  show ?thesis
    by (intro conjI) (fact refs ne same r2 c1 c2 refs1 single)+
qed

section \<open>Properties of \<^verbatim>\<open>images_to_video\<close>\<close>

subsection \<open>The decode phase\<close>

lemma canonical_Inl: "canonical raw = Inl e \<Longrightarrow> e = IndexError \<or> e = Cv2Error"
  by (auto simp add: canonical_def gray2bgr_def bgra2bgr_def split: if_splits)

lemma canonical_decoded_shape:
  "decoded_shape raw \<Longrightarrow>
   \<exists>img. canonical raw = Inr img \<and> length (shape img) = 3 \<and> shape img ! 2 = 3 \<and>
         shape2 img = shape2 raw"
  by (auto simp add: decoded_shape_def canonical_def gray2bgr_def bgra2bgr_def shape2_def
      nth_append)

lemma map_filter_Cons_None: "f x = None \<Longrightarrow> List.map_filter f (x # xs) = List.map_filter f xs"
  by (simp add: List.map_filter_def)

lemma map_filter_Cons_Some: "f x = Some y \<Longrightarrow> List.map_filter f (x # xs) = y # List.map_filter f xs"
  by (simp add: List.map_filter_def)

lemma decode_all_ok:
  "list_all (\<lambda>f. case imread world f of None \<Rightarrow> True
                  | Some raw \<Rightarrow> canonical raw = Inr (canon raw)) image_files \<Longrightarrow>
   decode_all world total_files i hp image_files =
     (decode_log world total_files i image_files,
      Inr (hp @ decoded world image_files,
           [length hp..<length hp + length (decoded world image_files)]))"
proof (induction image_files arbitrary: i hp)
  case Nil
  show ?case
    by (simp add: decoded_def List.map_filter_def)
next
  case (Cons f fs)
  show ?case
  proof (cases "imread world f")
    case None
    then have "decoded world (f # fs) = decoded world fs"
      by (simp add: decoded_def map_filter_Cons_None)
    moreover have "decode_all world total_files (Suc i) hp fs =
      (decode_log world total_files (Suc i) fs,
       Inr (hp @ decoded world fs, [length hp..<length hp + length (decoded world fs)]))"
      using Cons by simp
    ultimately show ?thesis
      using None by simp
  next
    case (Some raw)
    then have c: "canonical raw = Inr (canon raw)"
      using Cons.prems by simp
    let ?hp = "hp @ [canon raw]"
    have d: "decoded world (f # fs) = canon raw # decoded world fs"
      using Some by (simp add: decoded_def map_filter_Cons_Some)
    have ih: "decode_all world total_files (Suc i) ?hp fs =
      (decode_log world total_files (Suc i) fs,
       Inr (?hp @ decoded world fs, [length ?hp..<length ?hp + length (decoded world fs)]))"
      using Cons by simp
    have idx: "[length hp..<length hp + length (decoded world (f # fs))]
       = length hp # [length ?hp..<length ?hp + length (decoded world fs)]"
      unfolding d by (subst upt_rec) simp
    show ?thesis
      unfolding idx using Some c ih d by (simp add: alloc_def del: upt_Suc)
  qed
qed

lemma decode_all_Inl:
  "decode_all world total_files i hp image_files = (evs, Inl e) \<Longrightarrow>
   (e = IndexError \<or> e = Cv2Error) \<and> list_ex (\<lambda>f. imread world f \<noteq> None) image_files"
proof (induction image_files arbitrary: i hp evs)
  case Nil
  then show ?case by simp
next
  case (Cons f fs)
  show ?case
  proof (cases "imread world f")
    case None
    with Cons.prems obtain evs' where "decode_all world total_files (Suc i) hp fs = (evs', Inl e)"
      by (auto split: prod.splits)
    then show ?thesis
      using Cons.IH by auto
  next
    case (Some raw)
    show ?thesis
    proof (cases "canonical raw")
      case (Inl e')
      with Some Cons.prems have "e = e'"
        by simp
      with Inl Some show ?thesis
        by (auto dest: canonical_Inl)
    next
      case (Inr img)
      with Some Cons.prems obtain evs' where
        "decode_all world total_files (Suc i) (hp @ [img]) fs = (evs', Inl e)"
        by (auto simp add: alloc_def split: prod.splits sum.splits)
      then have "e = IndexError \<or> e = Cv2Error"
        using Cons.IH by blast
      with Some show ?thesis
        by simp
    qed
  qed
qed

lemma decode_all_Inr:
  "decode_all world total_files i hp image_files = (evs, Inr (hp', img_array)) \<Longrightarrow>
   evs = decode_log world total_files i image_files \<and>
   hp' = hp @ decoded world image_files \<and>
   img_array = [length hp..<length hp + length (decoded world image_files)]"
proof -
  assume a: "decode_all world total_files i hp image_files = (evs, Inr (hp', img_array))"
  have "list_all (\<lambda>f. case imread world f of None \<Rightarrow> True
                  | Some raw \<Rightarrow> canonical raw = Inr (canon raw)) image_files"
    using a
  proof (induction image_files arbitrary: i hp evs img_array)
    case Nil
    show ?case by simp
  next
    case (Cons f fs)
    show ?case
    proof (cases "imread world f")
      case None
      with Cons.prems obtain evs' where
        "decode_all world total_files (Suc i) hp fs = (evs', Inr (hp', img_array))"
        by (auto split: prod.splits)
      then show ?thesis
        using Cons.IH None by simp
    next
      case (Some raw)
      with Cons.prems obtain img evs' imgs' where c: "canonical raw = Inr img"
        and "decode_all world total_files (Suc i) (hp @ [img]) fs = (evs', Inr (hp', imgs'))"
        by (auto simp add: alloc_def Let_def split: prod.splits sum.splits)
      then show ?thesis
        using Cons.IH Some by (simp add: canon_def)
    qed
  qed
  from decode_all_ok [OF this, of total_files i hp] a show ?thesis
    by simp
qed

subsection \<open>The video sink and the frames\<close>

lemma write_all_cases:
  "write_all world hp n imgs = (evs, res) \<Longrightarrow>
   (res = Inr () \<and> evs = map (\<lambda>r. SinkWrite (hp ! r)) imgs) \<or>
   (res = Inl Cv2Error \<and>
    (\<exists>k<length imgs. evs = map (\<lambda>r. SinkWrite (hp ! r)) (take k imgs) \<and>
        write_raises world (n + k) (hp ! (imgs ! k))))"
proof (induction imgs arbitrary: n evs)
  case Nil
  then show ?case by auto
next
  case (Cons img imgs)
  show ?case
  proof (cases "write_raises world n (hp ! img)")
    case True
    with Cons.prems have "res = Inl Cv2Error" "evs = []"
      by simp_all
    moreover have "evs = map (\<lambda>r. SinkWrite (hp ! r)) (take 0 (img # imgs))"
      using \<open>evs = []\<close> by simp
    ultimately show ?thesis
      using True by (intro disjI2 conjI exI [of _ 0]) simp_all
  next
    case False
    with Cons.prems obtain evs' where rest: "write_all world hp (Suc n) imgs = (evs', res)"
      and evs: "evs = SinkWrite (hp ! img) # evs'"
      by (auto split: prod.splits)
    from Cons.IH [OF rest] show ?thesis
    proof
      assume "res = Inr () \<and> evs' = map (\<lambda>r. SinkWrite (hp ! r)) imgs"
      with evs show ?thesis by simp
    next
      assume "res = Inl Cv2Error \<and>
        (\<exists>k<length imgs. evs' = map (\<lambda>r. SinkWrite (hp ! r)) (take k imgs) \<and>
            write_raises world (Suc n + k) (hp ! (imgs ! k)))"
      then obtain k where k: "k < length imgs" "evs' = map (\<lambda>r. SinkWrite (hp ! r)) (take k imgs)"
        "write_raises world (Suc n + k) (hp ! (imgs ! k))" and res: "res = Inl Cv2Error"
        by blast
      have "Suc k < length (img # imgs)"
        using k by simp
      moreover have "evs = map (\<lambda>r. SinkWrite (hp ! r)) (take (Suc k) (img # imgs))"
        using evs k by simp
      moreover have "write_raises world (n + Suc k) (hp ! ((img # imgs) ! Suc k))"
        using k by simp
      ultimately show ?thesis
        using res by blast
    qed
  qed
qed

lemma sink_events_append [simp]: "sink_events (xs @ ys) = sink_events xs @ sink_events ys"
  by (simp add: sink_events_def)

lemma sink_events_Nil [simp]: "sink_events [] = []"
  by (simp add: sink_events_def)

lemma sink_events_Cons [simp]:
  "sink_events (ev # evs) = (if is_sink_event ev then ev # sink_events evs else sink_events evs)"
  by (simp add: sink_events_def)

lemma sink_events_globs [simp]: "sink_events (map Glob ps) = []"
  by (induction ps) simp_all

lemma sink_events_writes [simp]:
  "sink_events (map (\<lambda>r. SinkWrite (hp ! r)) imgs) = map (\<lambda>r. SinkWrite (hp ! r)) imgs"
  by (induction imgs) simp_all

lemma sink_events_decode_all:
  "decode_all world total_files i hp image_files = (evs, res) \<Longrightarrow> sink_events evs = []"
proof (induction image_files arbitrary: i hp evs res)
  case Nil
  then show ?case by simp
next
  case (Cons f fs)
  show ?case
  proof (cases "imread world f")
    case None
    with Cons.prems obtain evs' where "decode_all world total_files (Suc i) hp fs = (evs', res)"
      and "evs = (if i mod 10 = 0 then [Print (Progress i total_files)] else []) @
                 Imread f # Print (Warning f) # evs'"
      by (auto simp add: Let_def split: prod.splits)
    then show ?thesis
      using Cons.IH by simp
  next
    case (Some raw)
    show ?thesis
    proof (cases "canonical raw")
      case (Inl e)
      with Some Cons.prems show ?thesis
        by (auto simp add: Let_def)
    next
      case (Inr img)
      with Some Cons.prems obtain evs' res' where
        "decode_all world total_files (Suc i) (hp @ [img]) fs = (evs', res')"
        and "evs = (if i mod 10 = 0 then [Print (Progress i total_files)] else []) @ Imread f # evs'"
        by (auto simp add: alloc_def Let_def split: prod.splits)
      then show ?thesis
        using Cons.IH by simp
    qed
  qed
qed

lemma frames_append [simp]: "frames (xs @ ys) = frames xs @ frames ys"
  by (induction xs rule: frames.induct) simp_all

lemma frames_writes [simp]: "frames (map (\<lambda>r. SinkWrite (hp ! r)) imgs) = map (\<lambda>r. hp ! r) imgs"
  by (induction imgs) simp_all

lemma frames_sink_events: "frames (sink_events evs) = frames evs"
  by (induction evs rule: frames.induct) simp_all

lemma resize_each_heap:
  "resize_each cv2_resize (H, W) hp imgs = Inr (hp', out) \<Longrightarrow> take (length hp) hp' = hp"
proof (induction imgs arbitrary: hp out)
  case Nil
  then show ?case by simp
next
  case (Cons img imgs)
  then obtain a out' where "resize_each cv2_resize (H, W) (hp @ [a]) imgs = Inr (hp', out')"
    by (auto simp add: alloc_def split: sum.splits option.splits)
  then have "take (length (hp @ [a])) hp' = hp @ [a]"
    by (rule Cons.IH)
  then have "take (length hp) (take (length (hp @ [a])) hp') = hp"
    by simp
  then show ?case
    by (simp add: min_def)
qed

lemma resize_each_fit:
  "refs_ok hp imgs \<Longrightarrow> resize_each cv2_resize (H, W) hp imgs = Inr (hp', out) \<Longrightarrow>
   map (\<lambda>r. hp' ! r) out = map (\<lambda>r. fit cv2_resize (H, W) (hp ! r)) imgs"
proof (induction imgs arbitrary: hp out)
  case Nil
  then show ?case by simp
next
  case (Cons img imgs)
  let ?new = "if shape2 (hp ! img) \<noteq> [H, W] then cv2_resize (hp ! img) (W, H) else Some (hp ! img)"
  from Cons.prems(2) obtain a out' where a: "?new = Some a"
    and rest: "resize_each cv2_resize (H, W) (hp @ [a]) imgs = Inr (hp', out')"
    and out: "out = length hp # out'"
    by (auto simp add: alloc_def split: sum.splits option.splits)
  have fa: "fit cv2_resize (H, W) (hp ! img) = a"
    using a by (auto simp add: fit_def split: if_splits)
  from Cons.prems(1) have valid: "list_all (\<lambda>r. r < length hp) imgs"
    by (simp add: refs_ok_def)
  then have ok: "refs_ok (hp @ [a]) imgs"
    by (auto simp add: refs_ok_def list_all_iff)
  have same: "map (\<lambda>r. fit cv2_resize (H, W) ((hp @ [a]) ! r)) imgs
      = map (\<lambda>r. fit cv2_resize (H, W) (hp ! r)) imgs"
    using valid by (simp add: list_all_iff nth_append)
  have ih: "map (\<lambda>r. hp' ! r) out' = map (\<lambda>r. fit cv2_resize (H, W) (hp ! r)) imgs"
    using Cons.IH [OF ok rest] same by simp
  have "take (length (hp @ [a])) hp' = hp @ [a]"
    using rest by (rule resize_each_heap)
  then have "hp' ! length hp = a"
    by (metis length_append_singleton lessI nth_append_length nth_take)
  with out ih fa show ?case
    by simp
qed

subsection \<open>Discovery\<close>

lemma path_split_dir: "slash \<notin> set fmt \<Longrightarrow> path_split (path @ slash # fmt) = (image_dir path, fmt)"
proof -
  assume a: "slash \<notin> set fmt"
  have "takeWhile (\<lambda>c. c \<noteq> slash) (rev fmt @ slash # rev path) = rev fmt"
    using a by (subst takeWhile_append2) auto
  then show ?thesis
    by (simp add: path_split_def image_dir_def Let_def)
qed

lemma has_magic_append: "has_magic (s @ t) \<longleftrightarrow> has_magic s \<or> has_magic t"
  by (simp add: has_magic_def)

lemma has_magic_rstrip: "has_magic (py_rstrip slash s) = has_magic s"
proof -
  let ?P = "\<lambda>c. c = slash"
  have "rev s = takeWhile ?P (rev s) @ dropWhile ?P (rev s)"
    by simp
  then have "s = rev (dropWhile ?P (rev s)) @ rev (takeWhile ?P (rev s))"
    by (metis rev_append rev_rev_ident)
  then have "has_magic s \<longleftrightarrow> has_magic (py_rstrip slash s) \<or> has_magic (rev (takeWhile ?P (rev s)))"
    by (metis has_magic_append py_rstrip_def)
  moreover have "\<not> has_magic (rev (takeWhile ?P (rev s)))"
    by (auto simp add: has_magic_def list_ex_iff slash_def dest!: set_takeWhileD)
  ultimately show ?thesis
    by simp
qed

lemma image_dir_eq:
  "image_dir path =
     (if list_all (\<lambda>c. c = slash) path then path @ [slash] else py_rstrip slash (path @ [slash]))"
  by (simp add: image_dir_def path_split_def Let_def)

lemma has_magic_image_dir: "has_magic (image_dir path) = has_magic path"
proof -
  have "has_magic (path @ [slash]) = has_magic path"
    by (simp add: has_magic_def slash_def)
  then show ?thesis
    unfolding image_dir_eq by (cases "list_all (\<lambda>c. c = slash) path") (simp_all add: has_magic_rstrip)
qed

lemma image_dir_plain: "path \<noteq> [] \<Longrightarrow> last path \<noteq> slash \<Longrightarrow> image_dir path = path"
proof -
  assume a: "path \<noteq> []" "last path \<noteq> slash"
  then have "hd (rev path) \<noteq> slash" "rev path \<noteq> []"
    by (simp_all add: hd_rev)
  then have "dropWhile (\<lambda>c. c = slash) (rev path) = rev path"
    by (cases "rev path") simp_all
  moreover have "\<not> list_all (\<lambda>c. c = slash) path"
    using a by (auto simp add: list_all_iff)
  ultimately show ?thesis
    unfolding image_dir_eq by (simp add: py_rstrip_def)
qed

lemma glob_format:
  "slash \<notin> set suffix \<Longrightarrow> \<not> has_magic suffix \<Longrightarrow> \<not> has_magic path \<Longrightarrow>
   glob world (path @ ''/'' @ CHR ''*'' # suffix) =
     map (path_join (image_dir path)) (glob1 world (image_dir path) suffix)"
proof -
  assume a: "slash \<notin> set suffix" "\<not> has_magic suffix" "\<not> has_magic path"
  have "path @ ''/'' @ CHR ''*'' # suffix = path @ slash # CHR ''*'' # suffix"
    by (simp add: slash_def)
  moreover have "slash \<notin> set (CHR ''*'' # suffix)"
    using a by (simp add: slash_def)
  ultimately have "path_split (path @ ''/'' @ CHR ''*'' # suffix) = (image_dir path, CHR ''*'' # suffix)"
    using path_split_dir by metis
  then show ?thesis
    using a by (simp add: glob_def has_magic_image_dir)
qed

lemma discover_plain:
  "\<not> has_magic path \<Longrightarrow>
   discover world path =
     map (path_join (image_dir path))
       (glob1 world (image_dir path) ''.jpg'' @ glob1 world (image_dir path) ''.jpeg'' @
        glob1 world (image_dir path) ''.png'' @ glob1 world (image_dir path) ''.bmp'')"
proof -
  assume a: "\<not> has_magic path"
  have j: "glob world (path @ ''/'' @ ''*.jpg'') = map (path_join (image_dir path)) (glob1 world (image_dir path) ''.jpg'')"
    using a by (intro glob_format) (simp_all add: slash_def has_magic_def)
  have e: "glob world (path @ ''/'' @ ''*.jpeg'') = map (path_join (image_dir path)) (glob1 world (image_dir path) ''.jpeg'')"
    using a by (intro glob_format) (simp_all add: slash_def has_magic_def)
  have p: "glob world (path @ ''/'' @ ''*.png'') = map (path_join (image_dir path)) (glob1 world (image_dir path) ''.png'')"
    using a by (intro glob_format) (simp_all add: slash_def has_magic_def)
  have b: "glob world (path @ ''/'' @ ''*.bmp'') = map (path_join (image_dir path)) (glob1 world (image_dir path) ''.bmp'')"
    using a by (intro glob_format) (simp_all add: slash_def has_magic_def)
  show ?thesis
    unfolding discover_def patterns_def supported_formats_def list.map concat.simps j e p b
    by simp
qed

lemma has_image_extension_iff:
  "has_image_extension name \<longleftrightarrow>
     py_endswith name ''.jpg'' \<or> py_endswith name ''.jpeg'' \<or>
     py_endswith name ''.png'' \<or> py_endswith name ''.bmp''"
  by (simp add: has_image_extension_def supported_formats_def)

lemma py_endswith_iff: "py_endswith s suf \<longleftrightarrow> (\<exists>pre. s = pre @ suf)"
proof
  assume "py_endswith s suf"
  then have "s = take (length s - length suf) s @ suf"
    by (metis append_take_drop_id py_endswith_def)
  then show "\<exists>pre. s = pre @ suf" ..
next
  assume "\<exists>pre. s = pre @ suf"
  then show "py_endswith s suf"
    by (auto simp add: py_endswith_def)
qed

lemma endswith_last4:
  "py_endswith s [a, b, c, d] \<Longrightarrow> take 4 (rev s) = [d, c, b, a]"
  by (auto simp add: py_endswith_iff)

lemma endswith_last5:
  "py_endswith s [a, b, c, d, e] \<Longrightarrow> take 4 (rev s) = [e, d, c, b]"
  by (auto simp add: py_endswith_iff)

lemma extensions_exclusive:
  "\<not> (py_endswith s ''.jpg'' \<and> py_endswith s ''.jpeg'')"
  "\<not> (py_endswith s ''.jpg'' \<and> py_endswith s ''.png'')"
  "\<not> (py_endswith s ''.jpg'' \<and> py_endswith s ''.bmp'')"
  "\<not> (py_endswith s ''.jpeg'' \<and> py_endswith s ''.png'')"
  "\<not> (py_endswith s ''.jpeg'' \<and> py_endswith s ''.bmp'')"
  "\<not> (py_endswith s ''.png'' \<and> py_endswith s ''.bmp'')"
  by (auto dest!: endswith_last4 endswith_last5)

lemma length_filter_disj:
  "(\<And>x. \<not> (P x \<and> Q x)) \<Longrightarrow>
   length (filter (\<lambda>x. P x \<or> Q x) xs) = length (filter P xs) + length (filter Q xs)"
  by (induction xs) auto

lemma length_filter_extension:
  "length (filter has_image_extension xs) =
     length (filter (\<lambda>s. py_endswith s ''.jpg'') xs) + length (filter (\<lambda>s. py_endswith s ''.jpeg'') xs) +
     length (filter (\<lambda>s. py_endswith s ''.png'') xs) + length (filter (\<lambda>s. py_endswith s ''.bmp'') xs)"
proof (induction xs)
  case Nil
  show ?case by simp
next
  case (Cons x xs)
  show ?case
    using Cons extensions_exclusive [of x] by (auto simp add: has_image_extension_iff)
qed

lemma discover_set:
  assumes "\<not> has_magic path"
  shows "set (discover world path) =
     {path_join (image_dir path) name | name.
        name \<in> set (listdir world (image_dir path)) \<and> \<not> is_hidden name \<and> has_image_extension name}"
  unfolding discover_plain [OF assms] has_image_extension_iff
  by (auto simp add: glob1_def)

lemma discover_length:
  assumes "\<not> has_magic path"
  shows "length (discover world path) =
     length (filter (\<lambda>name. \<not> is_hidden name \<and> has_image_extension name) (listdir world (image_dir path)))"
proof -
  let ?ys = "filter (\<lambda>name. \<not> is_hidden name) (listdir world (image_dir path))"
  have "filter (\<lambda>name. \<not> is_hidden name \<and> has_image_extension name) (listdir world (image_dir path))
      = filter has_image_extension ?ys"
    by (simp add: conj_commute)
  moreover have "length (discover world path) = length (filter has_image_extension ?ys)"
    unfolding discover_plain [OF assms] glob1_def length_filter_extension
    by (simp only: length_map length_append add.assoc)
  ultimately show ?thesis
    by (simp only:)
qed

lemma image_set_filter: "{f x | x. x \<in> set xs \<and> P x} = set (map f (filter P xs))"
  by auto

subsection \<open>Main theorems on discovery and on colour\<close>

text \<open>
  C5. The specification has discovery consider exactly the files of the given directory
  whose names match the allow-list \<^verbatim>\<open>jpg\<close>, \<^verbatim>\<open>jpeg\<close>, \<^verbatim>\<open>png\<close>, \<^verbatim>\<open>bmp\<close>. The code asks
  \<^verbatim>\<open>glob.glob\<close> for \<^verbatim>\<open>path + '/' + fmt\<close>, and \<^verbatim>\<open>glob\<close> leaves out the names that begin with a
  dot and does not ask whether an entry is a file. What holds of the code, for a path
  without the metacharacters \<^verbatim>\<open>* ? [\<close>: the paths discovered are the entries of the
  directory, files and directories alike, whose names do not begin with a dot and end
  with \<^verbatim>\<open>.jpg\<close>, \<^verbatim>\<open>.jpeg\<close>, \<^verbatim>\<open>.png\<close> or \<^verbatim>\<open>.bmp\<close> in this spelling, each joined to the name
  of the directory and each found once; the directory is the path itself when the path
  is not empty and does not end with a slash. For every path: when discovery finds
  nothing, as in a directory that is empty, does not exist or holds no such name,
  \<^verbatim>\<open>images_to_video\<close> raises the \<^verbatim>\<open>ValueError\<close> of line 60, which the specification calls
  \<^verbatim>\<open>NoInputFilesError\<close>, and has done nothing but the four listings: no file was read, no
  sink was opened, no frame was written.
\<close>

theorem discover_allow_list:
  "(\<not> has_magic path \<longrightarrow>
      set (discover world path) =
        {path_join (image_dir path) name | name.
           name \<in> set (listdir world (image_dir path)) \<and> \<not> is_hidden name \<and>
           has_image_extension name} \<and>
      length (discover world path) =
        length (filter (\<lambda>name. \<not> is_hidden name \<and> has_image_extension name)
                  (listdir world (image_dir path)))) \<and>
   (path \<noteq> [] \<and> last path \<noteq> slash \<longrightarrow> image_dir path = path) \<and>
   (discover world path = [] \<longrightarrow>
      images_to_video world path output_path fps codec =
        ([Glob (path @ ''/*.jpg''), Glob (path @ ''/*.jpeg''),
          Glob (path @ ''/*.png''), Glob (path @ ''/*.bmp'')],
         Inl (ValueError NoInputFiles)))"
proof (intro conjI impI)
  assume "\<not> has_magic path"
  then show "set (discover world path) =
        {path_join (image_dir path) name | name.
           name \<in> set (listdir world (image_dir path)) \<and> \<not> is_hidden name \<and>
           has_image_extension name}"
    by (rule discover_set)
next
  assume "\<not> has_magic path"
  then show "length (discover world path) =
        length (filter (\<lambda>name. \<not> is_hidden name \<and> has_image_extension name)
                  (listdir world (image_dir path)))"
    by (rule discover_length)
next
  assume "path \<noteq> [] \<and> last path \<noteq> slash"
  then show "image_dir path = path"
    by (simp add: image_dir_plain)
next
  assume "discover world path = []"
  then show "images_to_video world path output_path fps codec =
        ([Glob (path @ ''/*.jpg''), Glob (path @ ''/*.jpeg''),
          Glob (path @ ''/*.png''), Glob (path @ ''/*.bmp'')],
         Inl (ValueError NoInputFiles))"
    by (simp add: images_to_video_def patterns_def supported_formats_def)
qed

theorem discover_allow_list_witness:
  "\<not> has_magic ''d'' \<and> image_dir ''d'' = ''d'' \<and>
   listdir sample_world ''d'' =
     [''img10.jpg'', ''notes.txt'', ''img1.png'', ''.cover.jpg'', ''img2.jpg'', ''IMG7.JPG'',
      ''bad3.jpg'', ''jpg''] \<and>
   set (discover sample_world ''d'') =
     {''d/img10.jpg'', ''d/img1.png'', ''d/img2.jpg'', ''d/bad3.jpg''} \<and>
   length (discover sample_world ''d'') = 4 \<and>
   discover sample_world ''empty'' = [] \<and>
   images_to_video sample_world ''empty'' ''demo.mp4'' 25 ''mp4v'' =
     ([Glob ''empty/*.jpg'', Glob ''empty/*.jpeg'', Glob ''empty/*.png'', Glob ''empty/*.bmp''],
      Inl (ValueError NoInputFiles))"
proof -
  let ?names = "[''img10.jpg'', ''notes.txt'', ''img1.png'', ''.cover.jpg'', ''img2.jpg'',
      ''IMG7.JPG'', ''bad3.jpg'', ''jpg'']"
  let ?P = "\<lambda>name. \<not> is_hidden name \<and> has_image_extension name"
  have m: "\<not> has_magic ''d''"
    by code_simp
  have p: "''d'' \<noteq> [] \<and> last ''d'' \<noteq> slash"
    by code_simp
  have l: "listdir sample_world ''d'' = ?names"
    by code_simp
  have f: "filter ?P ?names = [''img10.jpg'', ''img1.png'', ''img2.jpg'', ''bad3.jpg'']"
    by code_simp
  have j: "map (path_join ''d'') [''img10.jpg'', ''img1.png'', ''img2.jpg'', ''bad3.jpg'']
      = [''d/img10.jpg'', ''d/img1.png'', ''d/img2.jpg'', ''d/bad3.jpg'']"
    by code_simp
  have e: "discover sample_world ''empty'' = []"
    by code_simp
  note d = discover_allow_list [of "''d''" sample_world]
  note dir = d [THEN conjunct2, THEN conjunct1, rule_format, OF p]
  from d [THEN conjunct1, rule_format, OF m, THEN conjunct1]
  have s: "set (discover sample_world ''d'') =
     {''d/img10.jpg'', ''d/img1.png'', ''d/img2.jpg'', ''d/bad3.jpg''}"
    unfolding dir l image_set_filter f j by (simp only: list.set)
  from d [THEN conjunct1, rule_format, OF m, THEN conjunct2]
  have n: "length (discover sample_world ''d'') = 4"
    unfolding dir l f by simp
  note r = discover_allow_list [of "''empty''" sample_world "''demo.mp4''" 25 "''mp4v''",
      THEN conjunct2, THEN conjunct2, rule_format, OF e]
  have r': "images_to_video sample_world ''empty'' ''demo.mp4'' 25 ''mp4v'' =
     ([Glob ''empty/*.jpg'', Glob ''empty/*.jpeg'', Glob ''empty/*.png'', Glob ''empty/*.bmp''],
      Inl (ValueError NoInputFiles))"
    using r by simp
  show ?thesis
    by (intro conjI) (fact m dir l s n e r')+
qed

text \<open>
  Where the code leaves the words of the specification on discovery: the sample
  directory holds the file \<^verbatim>\<open>.cover.jpg\<close>, whose name has the extension \<^verbatim>\<open>jpg\<close> of the
  allow-list, and discovery does not find it.
\<close>

theorem discover_skips_hidden:
  "''.cover.jpg'' \<in> set (listdir sample_world ''d'') \<and>
   has_image_extension ''.cover.jpg'' \<and>
   ''d/.cover.jpg'' \<notin> set (discover sample_world ''d'') \<and>
   discover sample_world ''d'' = [''d/img10.jpg'', ''d/img2.jpg'', ''d/bad3.jpg'', ''d/img1.png'']"
  by code_simp

lemma decodable_ok:
  "decodable world \<Longrightarrow>
   list_all (\<lambda>f. case imread world f of None \<Rightarrow> True
                  | Some raw \<Rightarrow> canonical raw = Inr (canon raw)) image_files"
proof -
  assume d: "decodable world"
  have "canonical raw = Inr (canon raw)" if "imread world f = Some raw" for f raw
  proof -
    from d that have "decoded_shape raw"
      by (auto simp add: decodable_def)
    then obtain img where "canonical raw = Inr img"
      using canonical_decoded_shape by blast
    then show ?thesis
      by (simp add: canon_def)
  qed
  then show ?thesis
    by (auto simp add: list_all_iff split: option.splits)
qed

lemma decoded_three_channels:
  "decodable world \<Longrightarrow> img \<in> set (decoded world image_files) \<Longrightarrow>
   length (shape img) = 3 \<and> shape img ! 2 = 3"
proof -
  assume d: "decodable world" and "img \<in> set (decoded world image_files)"
  then obtain f raw where raw: "imread world f = Some raw" and img: "img = canon raw"
    by (auto simp add: decoded_def List.map_filter_def)
  from d raw have "decoded_shape raw"
    by (auto simp add: decodable_def)
  then obtain c where "canonical raw = Inr c" "length (shape c) = 3 \<and> shape c ! 2 = 3"
    using canonical_decoded_shape by blast
  with img show ?thesis
    by (simp add: canon_def)
qed

lemma decodable_sample: "decodable sample_world"
  by (simp add: decodable_def sample_world_def sample_imread_def decoded_shape_def is_empty_def)

lemma gray_length: "length (concat (map (\<lambda>v. [v, v, v]) xs)) = length xs * 3"
  by (induction xs) simp_all

lemma gray_nth:
  "k < length xs \<Longrightarrow> c < 3 \<Longrightarrow> concat (map (\<lambda>v. [v, v, v]) xs) ! (3 * k + c) = xs ! k"
proof (induction xs arbitrary: k)
  case Nil
  then show ?case by simp
next
  case (Cons x xs)
  from Cons.prems have c: "c = 0 \<or> c = 1 \<or> c = 2"
    by arith
  show ?case
  proof (cases k)
    case 0
    with c show ?thesis
      by auto
  next
    case (Suc j)
    then have "3 * k + c = Suc (Suc (Suc (3 * j + c)))"
      by simp
    moreover have "concat (map (\<lambda>v. [v, v, v]) xs) ! (3 * j + c) = xs ! j"
      using Cons.IH [of j] Cons.prems Suc by simp
    ultimately show ?thesis
      using Suc by simp
  qed
qed

lemma drop_alpha_length: "length xs = n * 4 \<Longrightarrow> length (drop_alpha xs) = n * 3"
proof (induction xs arbitrary: n rule: drop_alpha.induct)
  case (1 b g r a rest)
  then obtain m where "n = Suc m"
    by (cases n) simp_all
  with 1 show ?case
    by simp
qed simp_all

lemma drop_alpha_nth:
  "length xs = n * 4 \<Longrightarrow> k < n \<Longrightarrow> c < 3 \<Longrightarrow> drop_alpha xs ! (3 * k + c) = xs ! (4 * k + c)"
proof (induction xs arbitrary: n k rule: drop_alpha.induct)
  case (1 b g r a rest)
  then obtain m where n: "n = Suc m"
    by (cases n) simp_all
  from 1 have c: "c = 0 \<or> c = 1 \<or> c = 2"
    by arith
  show ?case
  proof (cases k)
    case 0
    with c show ?thesis
      by auto
  next
    case (Suc j)
    then have e: "3 * k + c = Suc (Suc (Suc (3 * j + c)))"
      "4 * k + c = Suc (Suc (Suc (Suc (4 * j + c))))"
      by simp_all
    have "drop_alpha rest ! (3 * j + c) = rest ! (4 * j + c)"
      using "1.IH" [of m j] "1.prems" Suc n by simp
    then show ?thesis
      unfolding e by (simp only: drop_alpha.simps nth_Cons_Suc)
  qed
qed simp_all

lemma nth_blocks:
  assumes "length ys = n * 3" and "\<forall>k<n. \<forall>c<3. ys ! (3 * k + c) = f k c"
  shows "ys = map (\<lambda>i. f (i div 3) (i mod 3)) [0..<n * 3]"
proof (rule nth_equalityI)
  show "length ys = length (map (\<lambda>i. f (i div 3) (i mod 3)) [0..<n * 3])"
    using assms by simp
next
  fix i
  assume "i < length ys"
  with assms have i: "i < n * 3"
    by simp
  then have "i div 3 < n" "i mod 3 < 3"
    by (simp_all add: less_mult_imp_div_less)
  with assms have "ys ! (3 * (i div 3) + i mod 3) = f (i div 3) (i mod 3)"
    by blast
  then have "ys ! i = f (i div 3) (i mod 3)"
    by simp
  with i show "ys ! i = map (\<lambda>i. f (i div 3) (i mod 3)) [0..<n * 3] ! i"
    by simp
qed

lemma ndarray_eqI: "shape (a :: ndarray) = s \<Longrightarrow> pixels a = p \<Longrightarrow> a = \<lparr>shape = s, pixels = p\<rparr>"
  by (cases a) simp

text \<open>
  C7. The colour step turns a grey image of height \<open>h\<close> and width \<open>w\<close> into a
  three-channel image of the same height and width in which each of the three samples
  of pixel \<open>k\<close> is the grey value of pixel \<open>k\<close>; it turns a four-channel image into the
  three-channel image in which sample \<open>c\<close> of pixel \<open>k\<close> is sample \<open>c\<close> of pixel \<open>k\<close> of
  the input, the fourth sample of every pixel being dropped; and it returns a
  three-channel image as it is. This is so for images that have a pixel, as every
  decoded image has: on an empty grey or four-channel array \<^verbatim>\<open>cv2.cvtColor\<close> raises. When
  every array that \<^verbatim>\<open>cv2.imread\<close> returns is grey or has three or four channels, and is
  not empty, the decode loop ends without an exception and every image it hands to the
  normaliser has three channels.
\<close>

theorem canonical_three_channels:
  "(shape img = [h, w] \<and> 0 < h \<and> 0 < w \<and> length (pixels img) = h * w \<longrightarrow>
      (\<exists>out. canonical img = Inr out \<and> shape out = [h, w, 3] \<and>
         length (pixels out) = h * w * 3 \<and>
         (\<forall>k<h * w. \<forall>c<3. pixels out ! (3 * k + c) = pixels img ! k))) \<and>
   (shape img = [h, w, 4] \<and> 0 < h \<and> 0 < w \<and> length (pixels img) = h * w * 4 \<longrightarrow>
      (\<exists>out. canonical img = Inr out \<and> shape out = [h, w, 3] \<and>
         length (pixels out) = h * w * 3 \<and>
         (\<forall>k<h * w. \<forall>c<3. pixels out ! (3 * k + c) = pixels img ! (4 * k + c)))) \<and>
   (shape img = [h, w, 3] \<longrightarrow> canonical img = Inr img) \<and>
   ((shape img = [h, w] \<or> shape img = [h, w, 4]) \<and> (h = 0 \<or> w = 0) \<longrightarrow>
      canonical img = Inl Cv2Error) \<and>
   (decodable world \<and> decode_all world total_files i hp image_files = (evs, res) \<longrightarrow>
      (\<exists>hp' img_array. res = Inr (hp', img_array) \<and>
         list_all (\<lambda>r. length (shape (hp' ! r)) = 3 \<and> shape (hp' ! r) ! 2 = 3) img_array))"
proof (intro conjI impI)
  assume a: "shape img = [h, w] \<and> 0 < h \<and> 0 < w \<and> length (pixels img) = h * w"
  let ?out = "\<lparr>shape = [h, w, 3], pixels = concat (map (\<lambda>v. [v, v, v]) (pixels img))\<rparr>"
  from a have "canonical img = Inr ?out"
    by (simp add: canonical_def gray2bgr_def is_empty_def)
  moreover have "length (pixels ?out) = h * w * 3"
    using a by (simp add: gray_length)
  moreover have "\<forall>k<h * w. \<forall>c<3. pixels ?out ! (3 * k + c) = pixels img ! k"
    using a by (simp add: gray_nth)
  ultimately show "\<exists>out. canonical img = Inr out \<and> shape out = [h, w, 3] \<and>
         length (pixels out) = h * w * 3 \<and>
         (\<forall>k<h * w. \<forall>c<3. pixels out ! (3 * k + c) = pixels img ! k)"
    by (intro exI [of _ ?out]) simp
next
  assume a: "shape img = [h, w, 4] \<and> 0 < h \<and> 0 < w \<and> length (pixels img) = h * w * 4"
  let ?out = "\<lparr>shape = [h, w, 3], pixels = drop_alpha (pixels img)\<rparr>"
  from a have "canonical img = Inr ?out"
    by (simp add: canonical_def bgra2bgr_def is_empty_def)
  moreover have "length (pixels ?out) = h * w * 3"
    using a by (simp add: drop_alpha_length)
  moreover have "\<forall>k<h * w. \<forall>c<3. pixels ?out ! (3 * k + c) = pixels img ! (4 * k + c)"
    using a by (simp add: drop_alpha_nth)
  ultimately show "\<exists>out. canonical img = Inr out \<and> shape out = [h, w, 3] \<and>
         length (pixels out) = h * w * 3 \<and>
         (\<forall>k<h * w. \<forall>c<3. pixels out ! (3 * k + c) = pixels img ! (4 * k + c))"
    by (intro exI [of _ ?out]) simp
next
  assume "shape img = [h, w, 3]"
  then show "canonical img = Inr img"
    by (simp add: canonical_def)
next
  assume "(shape img = [h, w] \<or> shape img = [h, w, 4]) \<and> (h = 0 \<or> w = 0)"
  then show "canonical img = Inl Cv2Error"
    by (auto simp add: canonical_def gray2bgr_def bgra2bgr_def is_empty_def)
next
  assume a: "decodable world \<and> decode_all world total_files i hp image_files = (evs, res)"
  let ?d = "decoded world image_files"
  from a have "decode_all world total_files i hp image_files =
     (decode_log world total_files i image_files,
      Inr (hp @ ?d, [length hp..<length hp + length ?d]))"
    by (intro decode_all_ok decodable_ok) simp
  with a have res: "res = Inr (hp @ ?d, [length hp..<length hp + length ?d])"
    by simp
  have "length (shape ((hp @ ?d) ! r)) = 3 \<and> shape ((hp @ ?d) ! r) ! 2 = 3"
    if "r \<in> set [length hp..<length hp + length ?d]" for r
  proof -
    from that have "(hp @ ?d) ! r = ?d ! (r - length hp)" "r - length hp < length ?d"
      by (auto simp add: nth_append)
    then have "(hp @ ?d) ! r \<in> set ?d"
      by simp
    with a show ?thesis
      using decoded_three_channels by blast
  qed
  then have "list_all (\<lambda>r. length (shape ((hp @ ?d) ! r)) = 3 \<and> shape ((hp @ ?d) ! r) ! 2 = 3)
      [length hp..<length hp + length ?d]"
    unfolding list_all_iff by blast
  with res show "\<exists>hp' img_array. res = Inr (hp', img_array) \<and>
         list_all (\<lambda>r. length (shape (hp' ! r)) = 3 \<and> shape (hp' ! r) ! 2 = 3) img_array"
    by blast
qed

theorem canonical_three_channels_witness:
  "canonical \<lparr>shape = [2, 1], pixels = [5, 6]\<rparr>
     = Inr \<lparr>shape = [2, 1, 3], pixels = [5, 5, 5, 6, 6, 6]\<rparr> \<and>
   canonical \<lparr>shape = [1, 2, 4], pixels = [1, 2, 3, 4, 5, 6, 7, 8]\<rparr>
     = Inr \<lparr>shape = [1, 2, 3], pixels = [1, 2, 3, 5, 6, 7]\<rparr> \<and>
   canonical \<lparr>shape = [1, 2, 3], pixels = [1, 2, 3, 4, 5, 6]\<rparr>
     = Inr \<lparr>shape = [1, 2, 3], pixels = [1, 2, 3, 4, 5, 6]\<rparr> \<and>
   canonical \<lparr>shape = [0, 5], pixels = []\<rparr> = Inl Cv2Error \<and>
   decodable sample_world \<and>
   snd (decode_all sample_world 4 1 [] [''d/bad3.jpg'', ''d/img1.png'', ''d/img2.jpg'', ''d/img10.jpg''])
     = Inr ([\<lparr>shape = [1, 2, 3], pixels = [1, 2, 3, 4, 5, 6]\<rparr>,
             \<lparr>shape = [1, 1, 3], pixels = [1, 2, 3]\<rparr>,
             \<lparr>shape = [2, 1, 3], pixels = [5, 5, 5, 6, 6, 6]\<rparr>], [0, 1, 2]) \<and>
   list_all (\<lambda>r. length (shape ([\<lparr>shape = [1, 2, 3], pixels = [1, 2, 3, 4, 5, 6]\<rparr>,
             \<lparr>shape = [1, 1, 3], pixels = [1, 2, 3]\<rparr>,
             \<lparr>shape = [2, 1, 3], pixels = [5, 5, 5, 6, 6, 6]\<rparr>] ! r)) = 3 \<and>
        shape ([\<lparr>shape = [1, 2, 3], pixels = [1, 2, 3, 4, 5, 6]\<rparr>,
             \<lparr>shape = [1, 1, 3], pixels = [1, 2, 3]\<rparr>,
             \<lparr>shape = [2, 1, 3], pixels = [5, 5, 5, 6, 6, 6]\<rparr>] ! r) ! 2 = 3) [0, 1, 2]"
proof -
  let ?grey = "\<lparr>shape = [2, 1], pixels = [5, 6]\<rparr>"
  let ?bgra = "\<lparr>shape = [1, 2, 4], pixels = [1, 2, 3, 4, 5, 6, 7, 8]\<rparr>"
  let ?bgr = "\<lparr>shape = [1, 2, 3], pixels = [1, 2, 3, 4, 5, 6]\<rparr>"
  let ?none = "\<lparr>shape = [0, 5], pixels = []\<rparr>"
  let ?files = "[''d/bad3.jpg'', ''d/img1.png'', ''d/img2.jpg'', ''d/img10.jpg'']"
  let ?hp = "[\<lparr>shape = [1, 2, 3], pixels = [1, 2, 3, 4, 5, 6]\<rparr>,
             \<lparr>shape = [1, 1, 3], pixels = [1, 2, 3]\<rparr>,
             \<lparr>shape = [2, 1, 3], pixels = [5, 5, 5, 6, 6, 6]\<rparr>]"
  have g: "canonical ?grey = Inr \<lparr>shape = [2, 1, 3], pixels = [5, 5, 5, 6, 6, 6]\<rparr>"
  proof -
    from canonical_three_channels [of ?grey 2 1, THEN conjunct1]
    obtain out where o: "canonical ?grey = Inr out" "shape out = [2, 1, 3]"
      "length (pixels out) = 2 * 1 * 3"
      and n: "\<forall>k<2 * 1. \<forall>c<3. pixels out ! (3 * k + c) = pixels ?grey ! k"
      by auto
    from nth_blocks [OF o(3) n]
    have "pixels out = map (\<lambda>i. pixels ?grey ! (i div 3)) [0..<2 * 1 * 3]" .
    also have "\<dots> = [5, 5, 5, 6, 6, 6]"
      by code_simp
    finally have "pixels out = [5, 5, 5, 6, 6, 6]" .
    with o show ?thesis
      by (simp add: ndarray_eqI)
  qed
  have a: "canonical ?bgra = Inr \<lparr>shape = [1, 2, 3], pixels = [1, 2, 3, 5, 6, 7]\<rparr>"
  proof -
    from canonical_three_channels [of ?bgra 1 2, THEN conjunct2, THEN conjunct1]
    obtain out where o: "canonical ?bgra = Inr out" "shape out = [1, 2, 3]"
      "length (pixels out) = 1 * 2 * 3"
      and n: "\<forall>k<1 * 2. \<forall>c<3. pixels out ! (3 * k + c) = pixels ?bgra ! (4 * k + c)"
      by auto
    from nth_blocks [OF o(3) n]
    have "pixels out = map (\<lambda>i. pixels ?bgra ! (4 * (i div 3) + i mod 3)) [0..<1 * 2 * 3]" .
    also have "\<dots> = [1, 2, 3, 5, 6, 7]"
      by code_simp
    finally have "pixels out = [1, 2, 3, 5, 6, 7]" .
    with o show ?thesis
      by (simp add: ndarray_eqI)
  qed
  have b: "canonical ?bgr = Inr ?bgr"
    using canonical_three_channels [of ?bgr 1 2, THEN conjunct2, THEN conjunct2, THEN conjunct1]
    by simp
  have e: "canonical ?none = Inl Cv2Error"
    using canonical_three_channels [of ?none 0 5, THEN conjunct2, THEN conjunct2, THEN conjunct2,
      THEN conjunct1]
    by simp
  have run: "decode_all sample_world 4 1 [] ?files =
      ([Imread ''d/bad3.jpg'', Print (Warning ''d/bad3.jpg''), Imread ''d/img1.png'',
        Imread ''d/img2.jpg'', Imread ''d/img10.jpg''], Inr (?hp, [0, 1, 2]))"
    by code_simp
  then have s: "snd (decode_all sample_world 4 1 [] ?files) = Inr (?hp, [0, 1, 2])"
    by simp
  from canonical_three_channels [of _ _ _ sample_world 4 1 "[]" ?files,
      THEN conjunct2, THEN conjunct2, THEN conjunct2, THEN conjunct2, rule_format, OF conjI,
      OF decodable_sample run]
  have l: "list_all (\<lambda>r. length (shape (?hp ! r)) = 3 \<and> shape (?hp ! r) ! 2 = 3) [0, 1, 2]"
    by blast
  show ?thesis
    by (intro conjI) (fact g a b e decodable_sample s l)+
qed

subsection \<open>The paths through \<^verbatim>\<open>images_to_video\<close>\<close>

lemma images_to_video_cases:
  assumes "images_to_video world path output_path fps codec = (tr, res)"
  obtains
    (no_files) "discover world path = []" "tr = map Glob (patterns path)"
      "res = Inl (ValueError NoInputFiles)"
  | (sort_error) e where "discover world path \<noteq> []"
      "sort_by_key natural_sort_key (discover world path) = Inl e"
      "tr = map Glob (patterns path)" "res = Inl e"
  | (decode_error) sorted_files decoding e where "discover world path \<noteq> []"
      "sort_by_key natural_sort_key (discover world path) = Inr sorted_files"
      "decode_all world (length sorted_files) 1 [] sorted_files = (decoding, Inl e)"
      "tr = map Glob (patterns path) @ Print (StartReading path) # decoding" "res = Inl e"
  | (no_images) sorted_files decoding hp where "discover world path \<noteq> []"
      "sort_by_key natural_sort_key (discover world path) = Inr sorted_files"
      "decode_all world (length sorted_files) 1 [] sorted_files = (decoding, Inr (hp, []))"
      "tr = map Glob (patterns path) @ Print (StartReading path) # decoding"
      "res = Inl (ValueError NoDecodableImages)"
  | (resize_error) sorted_files decoding hp img_array e where "discover world path \<noteq> []"
      "sort_by_key natural_sort_key (discover world path) = Inr sorted_files"
      "decode_all world (length sorted_files) 1 [] sorted_files = (decoding, Inr (hp, img_array))"
      "img_array \<noteq> []"
      "resize (resample world) hp img_array ''largest'' = Inl e"
      "tr = map Glob (patterns path) @ Print (StartReading path) # decoding @
            [Print (ReadCount (length img_array))]"
      "res = Inl e"
  | (encoded) sorted_files decoding hp img_array hp' resized frame_size encoding where
      "discover world path \<noteq> []"
      "sort_by_key natural_sort_key (discover world path) = Inr sorted_files"
      "decode_all world (length sorted_files) 1 [] sorted_files = (decoding, Inr (hp, img_array))"
      "img_array \<noteq> []"
      "resize (resample world) hp img_array ''largest'' = Inr (hp', resized, frame_size)"
      "encode world hp' resized frame_size output_path fps codec = (encoding, res)"
      "tr = map Glob (patterns path) @ Print (StartReading path) # decoding @
            [Print (ReadCount (length img_array)), Print (SizeInfo frame_size)] @ encoding"
proof (cases "discover world path = []")
  case True
  with assms no_files show ?thesis
    by (simp add: images_to_video_def)
next
  case files: False
  show ?thesis
  proof (cases "sort_by_key natural_sort_key (discover world path)")
    case (Inl e)
    with assms files sort_error show ?thesis
      by (simp add: images_to_video_def)
  next
    case (Inr sorted_files)
    obtain decoding dres where dec: "decode_all world (length sorted_files) 1 [] sorted_files = (decoding, dres)"
      by (cases "decode_all world (length sorted_files) 1 [] sorted_files")
    show ?thesis
    proof (cases dres)
      case (Inl e)
      with assms files Inr dec decode_error show ?thesis
        by (simp add: images_to_video_def)
    next
      case r: (Inr pair)
      obtain hp img_array where pair: "pair = (hp, img_array)"
        by (cases pair)
      show ?thesis
      proof (cases "img_array = []")
        case True
        with assms files Inr dec r pair no_images show ?thesis
          by (simp add: images_to_video_def)
      next
        case ne: False
        show ?thesis
        proof (cases "resize (resample world) hp img_array ''largest''")
          case (Inl e)
          with assms files Inr dec r pair ne resize_error show ?thesis
            by (simp add: images_to_video_def)
        next
          case rr: (Inr triple)
          obtain hp' resized frame_size where triple: "triple = (hp', resized, frame_size)"
            by (cases triple)
          obtain encoding eres where enc: "encode world hp' resized frame_size output_path fps codec = (encoding, eres)"
            by (cases "encode world hp' resized frame_size output_path fps codec")
          with assms files Inr dec r pair ne rr triple have "eres = res"
            and "tr = map Glob (patterns path) @ Print (StartReading path) # decoding @
            [Print (ReadCount (length img_array)), Print (SizeInfo frame_size)] @ encoding"
            by (simp_all add: images_to_video_def)
          with files Inr dec r pair ne rr triple enc encoded show ?thesis
            by simp
        qed
      qed
    qed
  qed
qed

lemma encode_cases:
  assumes "encode world hp img_array frame_size output_path fps codec = (evs, res)"
  shows "(evs = [] \<and> res = Inl TypeError \<and> length codec \<noteq> 4) \<or>
         (evs = [SinkOpen output_path codec fps frame_size False] \<and>
          res = Inl (ValueError SinkOpenFailed) \<and>
          \<not> sink_opens world output_path codec fps frame_size) \<or>
         (sink_opens world output_path codec fps frame_size \<and>
          evs = SinkOpen output_path codec fps frame_size True #
                  map (\<lambda>r. SinkWrite (hp ! r)) img_array @ [SinkRelease] \<and>
          res = Inr ()) \<or>
         (sink_opens world output_path codec fps frame_size \<and> res = Inl Cv2Error \<and>
          (\<exists>k<length img_array.
             evs = SinkOpen output_path codec fps frame_size True #
                     map (\<lambda>r. SinkWrite (hp ! r)) (take k img_array) @ [SinkRelease] \<and>
             write_raises world k (hp ! (img_array ! k))))"
proof (cases "length codec \<noteq> 4")
  case True
  with assms show ?thesis
    by (simp add: encode_def)
next
  case len: False
  show ?thesis
  proof (cases "sink_opens world output_path codec fps frame_size")
    case False
    with assms len show ?thesis
      by (simp add: encode_def)
  next
    case True
    obtain ws wres where w: "write_all world hp 0 img_array = (ws, wres)"
      by (cases "write_all world hp 0 img_array")
    with assms len True have evs: "evs = SinkOpen output_path codec fps frame_size True # ws @ [SinkRelease]"
      and res: "res = wres"
      by (simp_all add: encode_def)
    from write_all_cases [OF w] evs res True show ?thesis
      by auto
  qed
qed

lemma sink_event_mem:
  "is_sink_event ev \<Longrightarrow> ev \<in> set (sink_events evs) \<longleftrightarrow> ev \<in> set evs"
  by (simp add: sink_events_def)

lemma count_sink_events:
  "is_sink_event ev \<Longrightarrow> count_list (sink_events evs) ev = count_list evs ev"
  by (induction evs) auto

lemma count_release_writes: "count_list (map SinkWrite ws) SinkRelease = 0"
  by (induction ws) simp_all

lemma release_not_write: "SinkRelease \<notin> set (map SinkWrite ws)"
  by auto

lemma sink_summary:
  assumes "images_to_video world path output_path fps codec = (tr, res)"
  shows "(sink_events tr = [] \<and> (\<exists>e. res = Inl e)) \<or>
         (\<exists>frame_size. sink_events tr = [SinkOpen output_path codec fps frame_size False] \<and>
            res = Inl (ValueError SinkOpenFailed)) \<or>
         (\<exists>frame_size ws.
            sink_events tr = SinkOpen output_path codec fps frame_size True # map SinkWrite ws @ [SinkRelease] \<and>
            (res = Inr () \<or> res = Inl Cv2Error))"
  using assms
proof (cases rule: images_to_video_cases)
  case no_files
  then show ?thesis by simp
next
  case (sort_error e)
  then show ?thesis by simp
next
  case (decode_error sorted_files decoding e)
  then show ?thesis
    using sink_events_decode_all [of world "length sorted_files" 1 "[]" sorted_files decoding "Inl e"]
    by simp
next
  case (no_images sorted_files decoding hp)
  then show ?thesis
    using sink_events_decode_all [of world "length sorted_files" 1 "[]" sorted_files decoding]
    by simp
next
  case (resize_error sorted_files decoding hp img_array e)
  then show ?thesis
    using sink_events_decode_all [of world "length sorted_files" 1 "[]" sorted_files decoding]
    by simp
next
  case (encoded sorted_files decoding hp img_array hp' resized frame_size encoding)
  have pre: "sink_events tr = sink_events encoding"
    using encoded(7) sink_events_decode_all [OF encoded(3)] by simp
  from encode_cases [OF encoded(6)] consider
      (codec) "encoding = []" "res = Inl TypeError"
    | (closed) "encoding = [SinkOpen output_path codec fps frame_size False]"
        "res = Inl (ValueError SinkOpenFailed)"
    | (written) "encoding = SinkOpen output_path codec fps frame_size True #
                  map (\<lambda>r. SinkWrite (hp' ! r)) resized @ [SinkRelease]" "res = Inr ()"
    | (raised) k where "encoding = SinkOpen output_path codec fps frame_size True #
                     map (\<lambda>r. SinkWrite (hp' ! r)) (take k resized) @ [SinkRelease]"
        "res = Inl Cv2Error"
    by blast
  then show ?thesis
  proof cases
    case codec
    with pre show ?thesis by simp
  next
    case closed
    with pre show ?thesis by simp
  next
    case written
    with pre have "sink_events tr = SinkOpen output_path codec fps frame_size True #
       map SinkWrite (map (\<lambda>r. hp' ! r) resized) @ [SinkRelease]"
      by (simp add: comp_def)
    with written show ?thesis by blast
  next
    case raised
    with pre have "sink_events tr = SinkOpen output_path codec fps frame_size True #
       map SinkWrite (map (\<lambda>r. hp' ! r) (take k resized)) @ [SinkRelease]"
      by (simp add: comp_def)
    with raised show ?thesis by blast
  qed
qed

subsection \<open>Four runs in the sample world\<close>

lemma sample_run:
  "images_to_video sample_world ''d'' ''out.mp4'' 25 ''mp4v'' =
     (sample_decoding @
      [SinkOpen ''out.mp4'' ''mp4v'' 25 (2, 2) True, SinkWrite black_frame,
       SinkWrite black_frame, SinkWrite black_frame, SinkRelease], Inr ())"
  by code_simp

lemma tearing_run:
  "images_to_video tearing_world ''d'' ''out.mp4'' 25 ''mp4v'' =
     (sample_decoding @
      [SinkOpen ''out.mp4'' ''mp4v'' 25 (2, 2) True, SinkWrite black_frame, SinkRelease],
      Inl Cv2Error)"
  by code_simp

lemma closed_run:
  "images_to_video closed_world ''d'' ''out.mp4'' 25 ''mp4v'' =
     (sample_decoding @ [SinkOpen ''out.mp4'' ''mp4v'' 25 (2, 2) False],
      Inl (ValueError SinkOpenFailed))"
  by code_simp

lemma unreadable_run:
  "images_to_video unreadable_world ''d'' ''out.mp4'' 25 ''mp4v'' =
     ([Glob ''d/*.jpg'', Glob ''d/*.jpeg'', Glob ''d/*.png'', Glob ''d/*.bmp'',
       Print (StartReading ''d''), Imread ''d/bad3.jpg'', Print (Warning ''d/bad3.jpg''),
       Imread ''d/img1.png'', Print (Warning ''d/img1.png''),
       Imread ''d/img2.jpg'', Print (Warning ''d/img2.jpg''),
       Imread ''d/img10.jpg'', Print (Warning ''d/img10.jpg'')],
      Inl (ValueError NoDecodableImages))"
  by code_simp

subsection \<open>Main theorem on the video sink\<close>

text \<open>
  C4. In every run of \<^verbatim>\<open>images_to_video\<close>: when the sink was tried and did not open, the
  run ends with the \<^verbatim>\<open>ValueError\<close> of line 95, which the specification calls
  \<^verbatim>\<open>SinkOpenError\<close>, no frame was written and nothing was released; when the sink did
  open, the events on the sink are the opening, the writes and then one release, so the
  sink is released exactly once, after the last write, whether the run returns or ends
  with the exception of a write; and a release only ever follows a successful opening.
\<close>

theorem sink_released_once:
  assumes "images_to_video world path output_path fps codec = (tr, res)"
  shows "(SinkOpen p c f s False \<in> set tr \<longrightarrow>
            res = Inl (ValueError SinkOpenFailed) \<and> frames tr = [] \<and> SinkRelease \<notin> set tr \<and>
            sink_events tr = [SinkOpen p c f s False]) \<and>
         (SinkOpen p c f s True \<in> set tr \<longrightarrow>
            (\<exists>written. sink_events tr = SinkOpen p c f s True # map SinkWrite written @ [SinkRelease]) \<and>
            count_list tr SinkRelease = 1 \<and> (res = Inr () \<or> res = Inl Cv2Error)) \<and>
         (SinkRelease \<in> set tr \<longrightarrow> (\<exists>frame_size. SinkOpen output_path codec fps frame_size True \<in> set tr))"
proof -
  have mem: "SinkOpen p c f s b \<in> set tr \<longleftrightarrow> SinkOpen p c f s b \<in> set (sink_events tr)" for b
    by (simp add: sink_event_mem)
  have rel: "SinkRelease \<in> set tr \<longleftrightarrow> SinkRelease \<in> set (sink_events tr)"
    by (simp add: sink_event_mem)
  have cnt: "count_list tr SinkRelease = count_list (sink_events tr) SinkRelease"
    by (simp add: count_sink_events)
  have fr: "frames tr = frames (sink_events tr)"
    by (simp add: frames_sink_events)
  from sink_summary [OF assms] consider
      (none) "sink_events tr = []"
    | (closed) frame_size where "sink_events tr = [SinkOpen output_path codec fps frame_size False]"
        "res = Inl (ValueError SinkOpenFailed)"
    | (opened) frame_size ws where
        "sink_events tr = SinkOpen output_path codec fps frame_size True # map SinkWrite ws @ [SinkRelease]"
        "res = Inr () \<or> res = Inl Cv2Error"
    by blast
  then show ?thesis
  proof cases
    case none
    then show ?thesis
      unfolding mem rel cnt fr by simp
  next
    case closed
    then show ?thesis
      unfolding mem rel cnt fr by auto
  next
    case opened
    have "SinkOpen output_path codec fps frame_size True \<in> set (sink_events tr)"
      using opened(1) by simp
    then have "SinkOpen output_path codec fps frame_size True \<in> set tr"
      by (simp add: sink_event_mem)
    then have ex: "\<exists>frame_size. SinkOpen output_path codec fps frame_size True \<in> set tr"
      by blast
    have "(SinkOpen p c f s False \<in> set tr \<longrightarrow>
            res = Inl (ValueError SinkOpenFailed) \<and> frames tr = [] \<and> SinkRelease \<notin> set tr \<and>
            sink_events tr = [SinkOpen p c f s False]) \<and>
         (SinkOpen p c f s True \<in> set tr \<longrightarrow>
            (\<exists>written. sink_events tr = SinkOpen p c f s True # map SinkWrite written @ [SinkRelease]) \<and>
            count_list tr SinkRelease = 1 \<and> (res = Inr () \<or> res = Inl Cv2Error))"
      using opened unfolding mem rel cnt fr by (auto simp add: count_release_writes)
    with ex show ?thesis
      by blast
  qed
qed

theorem sink_released_once_witness:
  "images_to_video sample_world ''d'' ''out.mp4'' 25 ''mp4v'' =
     (sample_decoding @
      [SinkOpen ''out.mp4'' ''mp4v'' 25 (2, 2) True, SinkWrite black_frame,
       SinkWrite black_frame, SinkWrite black_frame, SinkRelease], Inr ()) \<and>
   count_list (sample_decoding @
      [SinkOpen ''out.mp4'' ''mp4v'' 25 (2, 2) True, SinkWrite black_frame,
       SinkWrite black_frame, SinkWrite black_frame, SinkRelease]) SinkRelease = 1 \<and>
   images_to_video tearing_world ''d'' ''out.mp4'' 25 ''mp4v'' =
     (sample_decoding @
      [SinkOpen ''out.mp4'' ''mp4v'' 25 (2, 2) True, SinkWrite black_frame, SinkRelease],
      Inl Cv2Error) \<and>
   count_list (sample_decoding @
      [SinkOpen ''out.mp4'' ''mp4v'' 25 (2, 2) True, SinkWrite black_frame, SinkRelease])
      SinkRelease = 1 \<and>
   images_to_video closed_world ''d'' ''out.mp4'' 25 ''mp4v'' =
     (sample_decoding @ [SinkOpen ''out.mp4'' ''mp4v'' 25 (2, 2) False],
      Inl (ValueError SinkOpenFailed)) \<and>
   frames (sample_decoding @ [SinkOpen ''out.mp4'' ''mp4v'' 25 (2, 2) False]) = [] \<and>
   SinkRelease \<notin> set (sample_decoding @ [SinkOpen ''out.mp4'' ''mp4v'' 25 (2, 2) False])"
proof -
  let ?opening = "SinkOpen ''out.mp4'' ''mp4v'' 25 (2, 2)"
  let ?ok = "sample_decoding @
      [?opening True, SinkWrite black_frame, SinkWrite black_frame, SinkWrite black_frame,
       SinkRelease]"
  let ?torn = "sample_decoding @ [?opening True, SinkWrite black_frame, SinkRelease]"
  let ?closed = "sample_decoding @ [?opening False]"
  have ok_open: "?opening True \<in> set ?ok" and torn_open: "?opening True \<in> set ?torn"
    and closed_open: "?opening False \<in> set ?closed"
    by simp_all
  note a = sink_released_once [OF sample_run, of "''out.mp4''" "''mp4v''" 25 "(2, 2)",
      THEN conjunct2, THEN conjunct1, rule_format, OF ok_open]
  note b = sink_released_once [OF tearing_run, of "''out.mp4''" "''mp4v''" 25 "(2, 2)",
      THEN conjunct2, THEN conjunct1, rule_format, OF torn_open]
  note c = sink_released_once [OF closed_run, of "''out.mp4''" "''mp4v''" 25 "(2, 2)",
      THEN conjunct1, rule_format, OF closed_open]
  from a have a1: "count_list ?ok SinkRelease = 1"
    by blast
  from b have b1: "count_list ?torn SinkRelease = 1"
    by blast
  from c have c2: "frames ?closed = []" and c3: "SinkRelease \<notin> set ?closed"
    by blast+
  show ?thesis
    by (intro conjI) (fact sample_run a1 tearing_run b1 closed_run c2 c3)+
qed

subsection \<open>What a run reads, reports and writes\<close>

lemma reads_append [simp]: "reads (xs @ ys) = reads xs @ reads ys"
  by (induction xs rule: reads.induct) simp_all

lemma warnings_append [simp]: "warnings (xs @ ys) = warnings xs @ warnings ys"
  by (induction xs rule: warnings.induct) simp_all

lemma reads_globs [simp]: "reads (map Glob ps) = []"
  by (induction ps) simp_all

lemma warnings_globs [simp]: "warnings (map Glob ps) = []"
  by (induction ps) simp_all

lemma reads_writes [simp]: "reads (map (\<lambda>r. SinkWrite (hp ! r)) imgs) = []"
  by (induction imgs) simp_all

lemma warnings_writes [simp]: "warnings (map (\<lambda>r. SinkWrite (hp ! r)) imgs) = []"
  by (induction imgs) simp_all

lemma frames_globs [simp]: "frames (map Glob ps) = []"
  by (induction ps) simp_all

lemma reads_decode_log [simp]: "reads (decode_log world total_files i image_files) = image_files"
  by (induction image_files arbitrary: i) simp_all

lemma warnings_decode_log [simp]:
  "warnings (decode_log world total_files i image_files)
     = filter (\<lambda>f. imread world f = None) image_files"
  by (induction image_files arbitrary: i) simp_all

lemma frames_decode_log [simp]: "frames (decode_log world total_files i image_files) = []"
  by (induction image_files arbitrary: i) simp_all

lemma encode_quiet:
  "encode world hp img_array frame_size output_path fps codec = (evs, res) \<Longrightarrow>
   reads evs = [] \<and> warnings evs = []"
  using encode_cases [of world hp img_array frame_size output_path fps codec evs res]
  by auto

lemma resize_Inl:
  "resize cv2_resize hp img_array align_mode = Inl e \<Longrightarrow>
   e = IndexError \<or> e = ValueError UnpackCount \<or> e = Cv2Error"
proof (cases img_array)
  case Nil
  assume "resize cv2_resize hp img_array align_mode = Inl e"
  with Nil show ?thesis
    by (simp add: resize_def)
next
  case (Cons first_img rest)
  assume a: "resize cv2_resize hp img_array align_mode = Inl e"
  show ?thesis
  proof (cases "list_all (\<lambda>r. 2 \<le> length (shape (hp ! r))) img_array")
    case False
    with a Cons show ?thesis
      by (auto simp add: resize_def unpack2_shape2 scan_sizes_eq split: if_splits)
  next
    case True
    with a Cons obtain H W where "resize_each cv2_resize (H, W) hp img_array = Inl e"
      by (auto simp add: resize_def unpack2_shape2 scan_sizes_eq split: sum.splits)
    then show ?thesis
      using resize_each_Inl by blast
  qed
qed

lemma resize_Inr_each:
  "resize cv2_resize hp img_array align_mode = Inr (hp', resized, frame_size) \<Longrightarrow>
   \<exists>H W. resize_each cv2_resize (H, W) hp img_array = Inr (hp', resized) \<and> frame_size = (W, H)"
proof (cases img_array)
  case Nil
  assume "resize cv2_resize hp img_array align_mode = Inr (hp', resized, frame_size)"
  with Nil show ?thesis
    by (simp add: resize_def)
next
  case (Cons first_img rest)
  assume "resize cv2_resize hp img_array align_mode = Inr (hp', resized, frame_size)"
  then show ?thesis
    unfolding Cons resize_def
    by (auto simp del: resize_each.simps split: sum.splits prod.splits)
qed

lemma decoded_Nil_iff:
  "decoded world image_files = [] \<longleftrightarrow> list_all (\<lambda>f. imread world f = None) image_files"
  by (auto simp add: decoded_def List.map_filter_def list_all_iff filter_empty_conv)

lemma length_decoded:
  "length (decoded world image_files) = length (filter (\<lambda>f. imread world f \<noteq> None) image_files)"
  by (simp add: decoded_def List.map_filter_def)

subsection \<open>Main theorem on the decode phase\<close>

text \<open>
  C6. For a run that reaches the decode phase, that is, one whose discovery found files
  and whose sort returned: the run ends with the \<^verbatim>\<open>ValueError\<close> of line 82, which the
  specification calls \<^verbatim>\<open>NoDecodableImagesError\<close>, exactly when no file could be read. When
  \<^verbatim>\<open>cv2.imread\<close> returns grey images and images of three or four channels only, none of
  them an empty array, every file
  is read, in the sorted order, whether or not the files before it could be read, and the
  warnings name exactly the files that could not be read. When such a run returns, the
  video holds one frame for every file that could be read, in order: the frames are the
  images read, in three-channel form, each fitted to the one target size.
\<close>

theorem decode_skips_failures:
  assumes run: "images_to_video world path output_path fps codec = (tr, res)"
    and files: "discover world path \<noteq> []"
    and sorted: "sort_by_key natural_sort_key (discover world path) = Inr sorted_files"
  shows "(res = Inl (ValueError NoDecodableImages) \<longleftrightarrow>
            list_all (\<lambda>f. imread world f = None) sorted_files) \<and>
         (decodable world \<longrightarrow>
            reads tr = sorted_files \<and>
            warnings tr = filter (\<lambda>f. imread world f = None) sorted_files) \<and>
         (decodable world \<and> res = Inr () \<longrightarrow>
            (\<exists>H W. frames tr = map (fit (resample world) (H, W)) (decoded world sorted_files)) \<and>
            length (frames tr) = length (filter (\<lambda>f. imread world f \<noteq> None) sorted_files))"
proof (intro conjI impI)
  show "res = Inl (ValueError NoDecodableImages) \<longleftrightarrow>
            list_all (\<lambda>f. imread world f = None) sorted_files"
  proof
    assume nd: "res = Inl (ValueError NoDecodableImages)"
    from run show "list_all (\<lambda>f. imread world f = None) sorted_files"
    proof (cases rule: images_to_video_cases)
      case no_files
      with files show ?thesis by simp
    next
      case (sort_error e)
      with sorted show ?thesis by simp
    next
      case (decode_error sorted_files' decoding e)
      with decode_all_Inl [OF decode_error(3)] nd show ?thesis by auto
    next
      case (no_images sorted_files' decoding hp)
      with sorted have same: "sorted_files' = sorted_files"
        by simp
      from decode_all_Inr [OF no_images(3)]
      have "[] = [0..<length (decoded world sorted_files')]"
        by simp
      then have "length (decoded world sorted_files') = 0"
        by (metis length_upt list.size(3) minus_nat.diff_0)
      then have "decoded world sorted_files' = []"
        by simp
      with same show ?thesis
        by (simp add: decoded_Nil_iff)
    next
      case (resize_error sorted_files' decoding hp img_array e)
      with resize_Inl [OF resize_error(5)] nd show ?thesis by auto
    next
      case (encoded sorted_files' decoding hp img_array hp' resized frame_size encoding)
      with encode_cases [OF encoded(6)] nd show ?thesis by auto
    qed
  next
    assume none: "list_all (\<lambda>f. imread world f = None) sorted_files"
    then have "list_all (\<lambda>f. case imread world f of None \<Rightarrow> True
                  | Some raw \<Rightarrow> canonical raw = Inr (canon raw)) sorted_files"
      by (simp add: list_all_iff)
    from decode_all_ok [OF this, of "length sorted_files" 1 "[]"] none
    have "decode_all world (length sorted_files) 1 [] sorted_files =
        (decode_log world (length sorted_files) 1 sorted_files, Inr ([], []))"
      by (simp add: decoded_Nil_iff [THEN iffD2])
    with run files sorted show "res = Inl (ValueError NoDecodableImages)"
      by (simp add: images_to_video_def)
  qed
next
  assume d: "decodable world"
  have dec: "decode_all world (length sorted_files) 1 [] sorted_files =
     (decode_log world (length sorted_files) 1 sorted_files,
      Inr ([] @ decoded world sorted_files,
           [length ([] :: heap)..<length ([] :: heap) + length (decoded world sorted_files)]))"
    using d by (intro decode_all_ok decodable_ok)
  have lg: "decoding = decode_log world (length sorted_files) 1 sorted_files"
    if "sort_by_key natural_sort_key (discover world path) = Inr sf"
      and "decode_all world (length sf) 1 [] sf = (decoding, dres)" for sf decoding dres
  proof -
    from that(1) sorted have "sf = sorted_files"
      by simp
    with that(2) dec show ?thesis
      by simp
  qed
  from run have "reads tr = sorted_files \<and>
            warnings tr = filter (\<lambda>f. imread world f = None) sorted_files"
  proof (cases rule: images_to_video_cases)
    case no_files
    with files show ?thesis by simp
  next
    case (sort_error e)
    with sorted show ?thesis by simp
  next
    case (decode_error sorted_files' decoding e)
    from lg [OF decode_error(2,3)] decode_error(4) show ?thesis by simp
  next
    case (no_images sorted_files' decoding hp)
    from lg [OF no_images(2,3)] no_images(4) show ?thesis by simp
  next
    case (resize_error sorted_files' decoding hp img_array e)
    from lg [OF resize_error(2,3)] resize_error(6) show ?thesis by simp
  next
    case (encoded sorted_files' decoding hp img_array hp' resized frame_size encoding)
    from lg [OF encoded(2,3)] encoded(7) encode_quiet [OF encoded(6)] show ?thesis by simp
  qed
  then show "reads tr = sorted_files"
    and "warnings tr = filter (\<lambda>f. imread world f = None) sorted_files"
    by simp_all
next
  assume a: "decodable world \<and> res = Inr ()"
  then have d: "decodable world" and ok: "res = Inr ()"
    by simp_all
  have dec: "decode_all world (length sorted_files) 1 [] sorted_files =
     (decode_log world (length sorted_files) 1 sorted_files,
      Inr (decoded world sorted_files, [0..<length (decoded world sorted_files)]))"
    using decode_all_ok [OF decodable_ok [OF d], of "length sorted_files" 1 "[]" sorted_files]
    by simp
  from run have "\<exists>H W. frames tr = map (fit (resample world) (H, W)) (decoded world sorted_files)"
  proof (cases rule: images_to_video_cases)
    case no_files
    with ok show ?thesis by simp
  next
    case (sort_error e)
    with ok show ?thesis by simp
  next
    case (decode_error sorted_files' decoding e)
    with ok show ?thesis by simp
  next
    case (no_images sorted_files' decoding hp)
    with ok show ?thesis by simp
  next
    case (resize_error sorted_files' decoding hp img_array e)
    with ok show ?thesis by simp
  next
    case (encoded sorted_files' decoding hp img_array hp' resized frame_size encoding)
    from encoded(2) sorted have sf: "sorted_files' = sorted_files"
      by simp
    note di = decode_all_Inr [OF encoded(3), unfolded sf]
    from di have hp: "hp = decoded world sorted_files"
      by simp
    from di have "img_array = [0..<length (decoded world sorted_files)]"
      by simp
    then have ia: "img_array = [0..<length hp]"
      by (simp only: hp)
    from di have log: "decoding = decode_log world (length sorted_files) 1 sorted_files"
      by simp
    from resize_Inr_each [OF encoded(5)] obtain H W where
      each: "resize_each (resample world) (H, W) hp img_array = Inr (hp', resized)"
      by blast
    have "refs_ok hp img_array"
      using ia by (simp add: refs_ok_def list_all_iff)
    from resize_each_fit [OF this each]
    have "map (\<lambda>r. hp' ! r) resized = map (fit (resample world) (H, W)) (map (\<lambda>r. hp ! r) [0..<length hp])"
      using ia by (simp add: comp_def)
    then have fitted: "map (\<lambda>r. hp' ! r) resized = map (fit (resample world) (H, W)) hp"
      by (simp only: map_nth)
    from encode_cases [OF encoded(6)] ok
    have "encoding = SinkOpen output_path codec fps frame_size True #
                  map (\<lambda>r. SinkWrite (hp' ! r)) resized @ [SinkRelease]"
      by auto
    then have "frames encoding = map (\<lambda>r. hp' ! r) resized"
      by simp
    with encoded(7) log have "frames tr = map (\<lambda>r. hp' ! r) resized"
      by simp
    with fitted hp show ?thesis
      by auto
  qed
  then show "\<exists>H W. frames tr = map (fit (resample world) (H, W)) (decoded world sorted_files)" .
  then show "length (frames tr) = length (filter (\<lambda>f. imread world f \<noteq> None) sorted_files)"
    by (auto simp add: length_decoded)
qed

theorem decode_skips_failures_witness:
  "discover sample_world ''d'' \<noteq> [] \<and>
   sort_by_key natural_sort_key (discover sample_world ''d'')
     = Inr [''d/bad3.jpg'', ''d/img1.png'', ''d/img2.jpg'', ''d/img10.jpg''] \<and>
   decodable sample_world \<and>
   images_to_video sample_world ''d'' ''out.mp4'' 25 ''mp4v'' =
     (sample_decoding @
      [SinkOpen ''out.mp4'' ''mp4v'' 25 (2, 2) True, SinkWrite black_frame,
       SinkWrite black_frame, SinkWrite black_frame, SinkRelease], Inr ()) \<and>
   reads (sample_decoding @
      [SinkOpen ''out.mp4'' ''mp4v'' 25 (2, 2) True, SinkWrite black_frame,
       SinkWrite black_frame, SinkWrite black_frame, SinkRelease])
     = [''d/bad3.jpg'', ''d/img1.png'', ''d/img2.jpg'', ''d/img10.jpg''] \<and>
   warnings (sample_decoding @
      [SinkOpen ''out.mp4'' ''mp4v'' 25 (2, 2) True, SinkWrite black_frame,
       SinkWrite black_frame, SinkWrite black_frame, SinkRelease]) = [''d/bad3.jpg''] \<and>
   length (frames (sample_decoding @
      [SinkOpen ''out.mp4'' ''mp4v'' 25 (2, 2) True, SinkWrite black_frame,
       SinkWrite black_frame, SinkWrite black_frame, SinkRelease])) = 3 \<and>
   snd (images_to_video unreadable_world ''d'' ''out.mp4'' 25 ''mp4v'')
     = Inl (ValueError NoDecodableImages) \<and>
   list_all (\<lambda>f. imread unreadable_world f = None)
     [''d/bad3.jpg'', ''d/img1.png'', ''d/img2.jpg'', ''d/img10.jpg'']"
proof -
  let ?sorted = "[''d/bad3.jpg'', ''d/img1.png'', ''d/img2.jpg'', ''d/img10.jpg'']"
  let ?tr = "sample_decoding @
      [SinkOpen ''out.mp4'' ''mp4v'' 25 (2, 2) True, SinkWrite black_frame,
       SinkWrite black_frame, SinkWrite black_frame, SinkRelease]"
  have files: "discover sample_world ''d'' \<noteq> []"
    by code_simp
  have sorted: "sort_by_key natural_sort_key (discover sample_world ''d'') = Inr ?sorted"
    by code_simp
  have files': "discover unreadable_world ''d'' \<noteq> []"
    by code_simp
  have sorted': "sort_by_key natural_sort_key (discover unreadable_world ''d'') = Inr ?sorted"
    by code_simp
  have bad: "filter (\<lambda>f. imread sample_world f = None) ?sorted = [''d/bad3.jpg'']"
    by code_simp
  have good: "length (filter (\<lambda>f. imread sample_world f \<noteq> None) ?sorted) = 3"
    by code_simp
  have res': "snd (images_to_video unreadable_world ''d'' ''out.mp4'' 25 ''mp4v'')
     = Inl (ValueError NoDecodableImages)"
    by (simp add: unreadable_run)
  note ok = decode_skips_failures [OF sample_run files sorted]
  from ok decodable_sample have r: "reads ?tr = ?sorted"
    and w: "warnings ?tr = filter (\<lambda>f. imread sample_world f = None) ?sorted"
    and f: "length (frames ?tr) = length (filter (\<lambda>f. imread sample_world f \<noteq> None) ?sorted)"
    by blast+
  from w bad have w': "warnings ?tr = [''d/bad3.jpg'']"
    by simp
  from f good have f': "length (frames ?tr) = 3"
    by simp
  from decode_skips_failures [OF unreadable_run files' sorted', THEN conjunct1]
  have n: "list_all (\<lambda>f. imread unreadable_world f = None) ?sorted"
    by simp
  show ?thesis
    by (intro conjI) (fact files sorted decodable_sample sample_run r w' f' res' n)+
qed

end
